theory Spec2Isabelle
  imports Main "HOL-Library.Word"
begin

unbundle bit_operations_syntax

section \<open>Python values used by \<open>analyze_lz77.py\<close>\<close>

text \<open>
  The ROM image is a Python \<open>bytes\<close> object and the output a \<open>bytearray\<close>: sequences of
  integers in \<open>0..255\<close>, modelled as lists of 8-bit words. Every other number of the
  function is an unbounded Python integer. The cursor \<open>d\<close> and the declared size start
  at a non-negative value and only grow, so they are naturals; the source position
  \<open>s\<close> derives from the caller's offset and stays an \<open>int\<close>.

  The source raises only two exceptions, both built in: \<open>IndexError\<close> (an index outside a
  sequence) and \<open>struct.error\<close> (a buffer of the wrong length given to
  \<open>struct.unpack\<close>). The other four constructors name the error kinds of the
  specification, which the source file neither defines nor raises; they are listed so that
  a statement can say so.
\<close>

type_synonym byte = "8 word"

datatype error =
    IndexError
  | StructError
  | FormatError
  | SizeLimitExceededError
  | TruncatedStreamError
  | ReferenceOutOfRangeError

text \<open>
  \<open>seq[i]\<close> on a sequence of length \<open>n\<close>: an index in \<open>[0, n)\<close> is taken as it is, an
  index in \<open>[-n, 0)\<close> counts from the end, anything else raises \<open>IndexError\<close>.
\<close>

definition py_index :: "nat \<Rightarrow> int \<Rightarrow> nat option" where
  "py_index n i =
     (if 0 \<le> i \<and> i < int n then Some (nat i)
      else if i < 0 \<and> - int n \<le> i then Some (nat (int n + i))
      else None)"

definition getitem :: "'a list \<Rightarrow> int \<Rightarrow> error + 'a" where
  "getitem xs i =
     (case py_index (length xs) i of
        None \<Rightarrow> Inl IndexError
      | Some k \<Rightarrow> Inr (xs ! k))"

definition setitem :: "'a list \<Rightarrow> int \<Rightarrow> 'a \<Rightarrow> error + 'a list" where
  "setitem xs i v =
     (case py_index (length xs) i of
        None \<Rightarrow> Inl IndexError
      | Some k \<Rightarrow> Inr (xs[k := v]))"

text \<open>
  \<open>seq[a:b]\<close>: a negative bound has the length added once, then both bounds are clamped
  to \<open>[0, n]\<close>; the slice is empty when the bounds cross. Slicing never raises.
\<close>

definition slice_bound :: "nat \<Rightarrow> int \<Rightarrow> nat" where
  "slice_bound n i = (if i < 0 then nat (max 0 (int n + i)) else min n (nat i))"

definition getslice :: "'a list \<Rightarrow> int \<Rightarrow> int \<Rightarrow> 'a list" where
  "getslice xs a b =
     (let lo = slice_bound (length xs) a;
          hi = slice_bound (length xs) b
      in take (hi - lo) (drop lo xs))"

text \<open>
  \<open>struct.unpack('<I', buf)[0]\<close>: exactly four bytes, least significant first;
  \<open>struct.error\<close> for any other length.
\<close>

definition unpack_le32 :: "byte list \<Rightarrow> error + int" where
  "unpack_le32 buf =
     (if length buf = 4
      then Inr (uint (buf ! 0) + 2 ^ 8 * uint (buf ! 1)
                + 2 ^ 16 * uint (buf ! 2) + 2 ^ 24 * uint (buf ! 3))
      else Inl StructError)"

section \<open>\<open>decompress_lz77\<close>\<close>

text \<open>
  \<open>length = ((byte1 >> 4) & 0xF) + 3\<close> and
  \<open>offset = ((byte1 & 0xF) << 8) | byte2; offset += 1\<close>.
\<close>

definition ref_length :: "byte \<Rightarrow> int" where
  "ref_length byte1 = ((drop_bit 4 (uint byte1)) AND 0xF) + 3"

definition ref_offset :: "byte \<Rightarrow> byte \<Rightarrow> int" where
  "ref_offset byte1 byte2 = ((push_bit 8 (uint byte1 AND 0xF)) OR uint byte2) + 1"

text \<open>
  The innermost loop, \<open>for j in range(length)\<close>; the first argument counts the iterations
  that remain. The right-hand side \<open>out[d - offset]\<close> is evaluated before the store.
\<close>

fun copy_loop :: "nat \<Rightarrow> nat \<Rightarrow> int \<Rightarrow> nat \<Rightarrow> byte list \<Rightarrow> error + nat \<times> byte list" where
  "copy_loop 0 sz offset d out = Inr (d, out)"
| "copy_loop (Suc j) sz offset d out =
     (if d \<ge> sz then Inr (d, out)
      else case getitem out (int d - offset) of
             Inl e \<Rightarrow> Inl e
           | Inr v \<Rightarrow>
               (case setitem out (int d) v of
                  Inl e \<Rightarrow> Inl e
                | Inr out' \<Rightarrow> copy_loop j sz offset (d + 1) out'))"

text \<open>
  The loop over the bits of one flag byte, \<open>for i in range(7, -1, -1)\<close>: with \<open>Suc i\<close>
  iterations remaining the bit tested is bit \<open>i\<close>. The state is \<open>(s, d, out)\<close>.
\<close>

type_synonym state = "int \<times> nat \<times> byte list"

fun unit_loop :: "byte list \<Rightarrow> nat \<Rightarrow> byte \<Rightarrow> nat \<Rightarrow> state \<Rightarrow> error + state" where
  "unit_loop data sz flags 0 st = Inr st"
| "unit_loop data sz flags (Suc i) (s, d, out) =
     (if d \<ge> sz then Inr (s, d, out)
      else if (uint flags AND push_bit i 1) \<noteq> 0 then
        (case getitem data s of
           Inl e \<Rightarrow> Inl e
         | Inr byte1 \<Rightarrow>
        (case getitem data (s + 1) of
           Inl e \<Rightarrow> Inl e
         | Inr byte2 \<Rightarrow>
        (case copy_loop (nat (ref_length byte1)) sz (ref_offset byte1 byte2) d out of
           Inl e \<Rightarrow> Inl e
         | Inr (d', out') \<Rightarrow> unit_loop data sz flags i (s + 2, d', out'))))
      else
        (case getitem data s of
           Inl e \<Rightarrow> Inl e
         | Inr v \<Rightarrow>
        (case setitem out (int d) v of
           Inl e \<Rightarrow> Inl e
         | Inr out' \<Rightarrow> unit_loop data sz flags i (s + 1, d + 1, out'))))"

text \<open>
  The outer loop, \<open>while d < size\<close>. Nothing in its shape bounds the number of rounds, so
  it is a partial function: \<open>None\<close> stands for a loop that never ends.
\<close>

partial_function (option) flag_loop :: "byte list \<Rightarrow> nat \<Rightarrow> state \<Rightarrow> (error + state) option" where
  "flag_loop data sz st =
     (case st of (s, d, out) \<Rightarrow>
        if d < sz then
          (case getitem data s of
             Inl e \<Rightarrow> Some (Inl e)
           | Inr flags \<Rightarrow>
               (case unit_loop data sz flags 8 (s + 1, d, out) of
                  Inl e \<Rightarrow> Some (Inl e)
                | Inr st' \<Rightarrow> flag_loop data sz st'))
        else Some (Inr st))"

declare flag_loop.simps [code]

text \<open>
  The header: \<open>size = header >> 8\<close>, a zero-filled \<open>bytearray(size)\<close>, and the loop
  started at \<open>s = src_offset + 4\<close>, \<open>d = 0\<close>. \<open>decompress_lz77_run\<close> keeps the final
  values of \<open>s\<close> and \<open>d\<close> beside the buffer; \<open>decompress_lz77\<close> returns what the source
  returns, the buffer.
\<close>

definition header_size :: "byte list \<Rightarrow> int \<Rightarrow> error + nat" where
  "header_size data src_offset =
     (case unpack_le32 (getslice data src_offset (src_offset + 4)) of
        Inl e \<Rightarrow> Inl e
      | Inr header \<Rightarrow> Inr (nat (drop_bit 8 header)))"

definition decompress_lz77_run :: "byte list \<Rightarrow> int \<Rightarrow> (error + state) option" where
  "decompress_lz77_run data src_offset =
     (case header_size data src_offset of
        Inl e \<Rightarrow> Some (Inl e)
      | Inr sz \<Rightarrow> flag_loop data sz (src_offset + 4, 0, replicate sz 0))"

definition decompress_lz77 :: "byte list \<Rightarrow> int \<Rightarrow> (error + byte list) option" where
  "decompress_lz77 data src_offset =
     map_option (map_sum id (\<lambda>(s, d, out). out)) (decompress_lz77_run data src_offset)"

section \<open>Indexing and slicing\<close>

lemma py_index_bound: "py_index n i = Some k \<Longrightarrow> k < n"
  by (auto simp: py_index_def split: if_splits)

lemma py_index_nat: "k < n \<Longrightarrow> py_index n (int k) = Some k"
  by (simp add: py_index_def)

lemma py_index_None_iff: "py_index n i = None \<longleftrightarrow> i < - int n \<or> int n \<le> i"
  by (auto simp: py_index_def)

lemma py_index_neg: "i < 0 \<Longrightarrow> - int n \<le> i \<Longrightarrow> py_index n i = Some (nat (int n + i))"
  by (simp add: py_index_def)

lemma getitem_nat: "k < length xs \<Longrightarrow> getitem xs (int k) = Inr (xs ! k)"
  by (simp add: getitem_def py_index_nat)

lemma getitem_Inl: "getitem xs i = Inl e \<Longrightarrow> e = IndexError"
  by (auto simp: getitem_def split: option.splits)

lemma getitem_Inl_iff: "getitem xs i = Inl e \<longleftrightarrow> e = IndexError \<and> (i < - int (length xs) \<or> int (length xs) \<le> i)"
  by (auto simp: getitem_def py_index_def split: option.splits if_splits)

lemma getitem_Inr: "getitem xs i = Inr v \<Longrightarrow> \<exists>k. py_index (length xs) i = Some k \<and> v = xs ! k"
  by (auto simp: getitem_def split: option.splits)

lemma getitem_pos: "getitem xs i = Inr v \<Longrightarrow> 0 \<le> i \<Longrightarrow> i < int (length xs)"
  by (auto simp: getitem_def py_index_def split: option.splits if_splits)

lemma getitem_wrap:
  "length out = sz \<Longrightarrow> int d < off \<Longrightarrow> off - int d \<le> int sz \<Longrightarrow>
     getitem out (int d - off) = Inr (out ! nat (int sz + int d - off))"
  by (simp add: getitem_def py_index_def algebra_simps)

lemma getitem_exhausted: "int (length data) \<le> s \<Longrightarrow> getitem data s = Inl IndexError"
  by (auto simp: getitem_def py_index_def)

lemma getitem_pair_exhausted:
  "int (length data) \<le> s + 1 \<Longrightarrow>
     getitem data s = Inl IndexError \<or> (\<exists>b. getitem data s = Inr b \<and> getitem data (s + 1) = Inl IndexError)"
  by (cases "getitem data s") (auto simp: getitem_def py_index_def split: if_splits)

lemma getitem_take_in: "0 \<le> s \<Longrightarrow> s < int n \<Longrightarrow> getitem (take n data) s = getitem data s"
  by (auto simp: getitem_def py_index_def)

lemma getitem_take_out: "int n \<le> s \<Longrightarrow> getitem (take n data) s = Inl IndexError"
  by (auto simp: getitem_def py_index_def)

lemma setitem_nat: "k < length xs \<Longrightarrow> setitem xs (int k) v = Inr (xs[k := v])"
  by (simp add: setitem_def py_index_nat)

lemma setitem_Inl: "setitem xs i v = Inl e \<Longrightarrow> e = IndexError"
  by (auto simp: setitem_def split: option.splits)

lemma setitem_nat_Inr: "setitem xs (int k) v = Inr ys \<Longrightarrow> k < length xs \<and> ys = xs[k := v]"
  by (auto simp: setitem_def py_index_def split: option.splits if_splits)

lemma replicate_update_same: "(replicate n x)[k := x] = replicate n x"
  by (induction n arbitrary: k) (simp_all split: nat.split)

lemma getslice_nonneg:
  "0 \<le> a \<Longrightarrow> a \<le> b \<Longrightarrow> getslice data a b = take (nat (b - a)) (drop (nat a) data)"
  by (auto simp: getslice_def slice_bound_def Let_def min_def nat_diff_distrib)

lemma getslice_set_tag:
  assumes "0 \<le> src_offset"
  shows "length (getslice (data[nat src_offset := t]) src_offset (src_offset + 4))
           = length (getslice data src_offset (src_offset + 4))"
    and "0 < k \<Longrightarrow> getslice (data[nat src_offset := t]) src_offset (src_offset + 4) ! k
           = getslice data src_offset (src_offset + 4) ! k"
  using assms by (simp_all add: getslice_nonneg take_update_swap drop_update_swap nth_list_update nth_Cons' flip: drop_update_cancel)

lemma getitem_update_other:
  "0 \<le> s \<Longrightarrow> s \<noteq> int k \<Longrightarrow> getitem (data[k := t]) s = getitem data s"
  by (auto simp: getitem_def py_index_def)

section \<open>The header\<close>

lemma drop_header_word:
  "nat (drop_bit 8 (uint (b0::byte) + 256 * uint (b1::byte) + 65536 * uint (b2::byte) + 16777216 * uint (b3::byte)))
     = unat b1 + 256 * unat b2 + 65536 * unat b3"
proof -
  define x where "x = uint b1 + 256 * uint b2 + 65536 * uint b3"
  have e: "uint b0 + 256 * uint b1 + 65536 * uint b2 + 16777216 * uint b3 = uint b0 + 256 * x"
    by (simp add: x_def)
  have "0 \<le> uint b0" "uint b0 < 256" using uint_bounded [of b0] by simp_all
  then have "(uint b0 + 256 * x) div 2 ^ 8 = x" by simp
  then have "drop_bit 8 (uint b0 + 256 * uint b1 + 65536 * uint b2 + 16777216 * uint b3) = x"
    by (simp only: e drop_bit_eq_div)
  then show ?thesis by (simp add: x_def nat_add_distrib nat_mult_distrib)
qed

lemma header_size_eq:
  "header_size data off =
     (let buf = getslice data off (off + 4)
      in if length buf = 4
         then Inr (unat (buf ! 1) + 256 * unat (buf ! 2) + 65536 * unat (buf ! 3))
         else Inl StructError)"
  by (simp add: header_size_def unpack_le32_def Let_def drop_header_word)

lemma byte_le_255: "unat (w :: byte) \<le> 255"
  using unsigned_less [of w, where 'a = nat] by simp

lemma header_size_bound: "header_size data off = Inr sz \<Longrightarrow> sz < 2 ^ 24"
proof -
  assume "header_size data off = Inr sz"
  then obtain buf :: "byte list" where "sz = unat (buf ! 1) + 256 * unat (buf ! 2) + 65536 * unat (buf ! 3)"
    by (auto simp: header_size_eq Let_def split: if_splits)
  moreover note byte_le_255 [of "buf ! 1"] byte_le_255 [of "buf ! 2"] byte_le_255 [of "buf ! 3"]
  ultimately show ?thesis by simp
qed

lemma header_size_take:
  "0 \<le> src_offset \<Longrightarrow> src_offset + 4 \<le> int n \<Longrightarrow>
     header_size (take n data) src_offset = header_size data src_offset"
proof -
  assume a: "0 \<le> src_offset" "src_offset + 4 \<le> int n"
  then have "min 4 (n - nat src_offset) = 4" by auto
  with a have "getslice (take n data) src_offset (src_offset + 4)
      = getslice data src_offset (src_offset + 4)"
    by (simp add: getslice_nonneg drop_take)
  then show ?thesis by (simp add: header_size_def)
qed

lemma size_bytes:
  "sz < 2 ^ 24 \<Longrightarrow>
     unat (word_of_nat sz :: byte) + 256 * unat (word_of_nat (sz div 256) :: byte)
       + 65536 * unat (word_of_nat (sz div 65536) :: byte) = sz"
proof -
  assume "sz < 2 ^ 24"
  then have "sz div 65536 < 256" by simp
  then have hi: "unat (word_of_nat (sz div 65536) :: byte) = sz div 65536"
    by (simp add: unat_of_nat)
  have lo: "unat (word_of_nat sz :: byte) = sz mod 256"
    and mid: "unat (word_of_nat (sz div 256) :: byte) = (sz div 256) mod 256"
    by (simp_all add: unat_of_nat)
  have a: "256 * (sz div 256) + sz mod 256 = sz" by (rule mult_div_mod_eq)
  have b: "256 * (sz div 256 div 256) + sz div 256 mod 256 = sz div 256" by (rule mult_div_mod_eq)
  have c: "sz div 256 div 256 = sz div 65536" by (simp add: div_mult2_eq)
  from a b c show ?thesis unfolding hi lo mid by linarith
qed

section \<open>Reference units and the copy loop\<close>

lemma ref_length_bounds: "3 \<le> ref_length b1 \<and> ref_length b1 \<le> 18"
proof -
  have "0 \<le> drop_bit 4 (uint b1) AND 15"
    by (simp add: and_nonnegative_int_iff)
  moreover have "drop_bit 4 (uint b1) AND 15 \<le> 15"
    by (rule AND_upper2') simp_all
  ultimately show ?thesis by (simp add: ref_length_def)
qed

lemma ref_offset_bounds: "1 \<le> ref_offset b1 b2 \<and> ref_offset b1 b2 \<le> 4096"
proof -
  have lo: "0 \<le> uint b1 AND 15" by simp
  have hi: "uint b1 AND 15 \<le> 15" by (rule AND_upper2') simp_all
  have a: "0 \<le> push_bit 8 (uint b1 AND 15)" using lo by simp
  have b: "push_bit 8 (uint b1 AND 15) < 2 ^ 12" using hi by (simp add: push_bit_eq_mult)
  have c: "uint b2 < 2 ^ 12" using uint_bounded [of b2] by simp
  have "push_bit 8 (uint b1 AND 15) OR uint b2 < 2 ^ 12"
    using a b c by (intro OR_upper) simp_all
  moreover have "0 \<le> push_bit 8 (uint b1 AND 15) OR uint b2"
    using a by simp
  ultimately show ?thesis by (simp add: ref_offset_def)
qed

lemma ref_length_div: "ref_length b1 = uint b1 div 16 + 3"
proof -
  have "drop_bit 4 (uint b1) AND 15 = take_bit 4 (drop_bit 4 (uint b1))"
    using take_bit_eq_mask [of 4 "drop_bit 4 (uint b1)"] by (simp add: mask_eq_exp_minus_1)
  also have "\<dots> = (uint b1 div 16) mod 16"
    by (simp add: take_bit_eq_mod drop_bit_eq_div)
  also have "\<dots> = uint b1 div 16"
  proof -
    have "0 \<le> uint b1" "uint b1 < 256" using uint_bounded [of b1] by simp_all
    then have "0 \<le> uint b1 div 16" "uint b1 div 16 < 16" by presburger+
    then show ?thesis by simp
  qed
  finally show ?thesis by (simp add: ref_length_def)
qed

lemma ref_offset_arith: "ref_offset b1 b2 = (uint b1 mod 16) * 256 + uint b2 + 1"
proof -
  have m: "uint b1 AND 15 = uint b1 mod 16"
    using take_bit_eq_mask [of 4 "uint b1"] by (simp add: mask_eq_exp_minus_1 take_bit_eq_mod)
  have "take_bit 8 (uint b2) = uint b2"
    using uint_bounded [of b2] by (simp add: take_bit_eq_mod)
  then have "push_bit 8 (uint b1 mod 16) OR uint b2 = concat_bit 8 (uint b2) (uint b1 mod 16)"
    by (simp add: concat_bit_def or.commute)
  also have "\<dots> = uint b2 + push_bit 8 (uint b1 mod 16)"
    using \<open>take_bit 8 (uint b2) = uint b2\<close> by (simp add: concat_bit_eq)
  finally show ?thesis by (simp add: ref_offset_def m push_bit_eq_mult)
qed

lemma copy_loop_spec:
  "copy_loop n sz off d out = Inr (d', out') \<Longrightarrow>
     d' = max d (min (d + n) sz) \<and> length out' = length out \<and> (d < d' \<longrightarrow> d' \<le> length out) \<and>
     (\<forall>k. k < d \<or> d' \<le> k \<longrightarrow> out' ! k = out ! k) \<and>
     (\<forall>k. d \<le> k \<and> k < d' \<longrightarrow>
        (\<exists>p. py_index (length out) (int k - off) = Some p \<and>
             out' ! k = (if d \<le> p \<and> p < k then out' ! p else out ! p)))"
proof (induction n arbitrary: d out)
  case 0
  then show ?case by auto
next
  case (Suc n)
  show ?case
  proof (cases "sz \<le> d")
    case True
    with Suc.prems show ?thesis by auto
  next
    case False
    with Suc.prems obtain v out1 where
      rd: "getitem out (int d - off) = Inr v" and
      wr: "setitem out (int d) v = Inr out1" and
      rest: "copy_loop n sz off (d + 1) out1 = Inr (d', out')"
      by (auto split: sum.splits)
    from rd obtain p0 where p0: "py_index (length out) (int d - off) = Some p0" "v = out ! p0"
      by (auto dest: getitem_Inr)
    from wr have dl: "d < length out" and out1: "out1 = out[d := v]"
      by (auto dest: setitem_nat_Inr)
    have l1: "length out1 = length out" by (simp add: out1)
    note IH = Suc.IH [OF rest, unfolded l1]
    from IH have d': "d' = max (d + 1) (min (d + 1 + n) sz)" by blast
    from IH have len: "length out' = length out" by blast
    from IH have same: "\<And>k. k < d + 1 \<or> d' \<le> k \<Longrightarrow> out' ! k = out1 ! k" by blast
    from IH have pt: "\<And>k. d + 1 \<le> k \<Longrightarrow> k < d' \<Longrightarrow>
        \<exists>p. py_index (length out) (int k - off) = Some p \<and>
             out' ! k = (if d + 1 \<le> p \<and> p < k then out' ! p else out1 ! p)"
      by blast
    from IH have cap: "d + 1 < d' \<longrightarrow> d' \<le> length out" by blast
    have c1: "d' = max d (min (d + Suc n) sz)" using d' False by auto
    have c3: "d < d' \<longrightarrow> d' \<le> length out" using cap dl d' by auto
    have c4: "\<forall>k. k < d \<or> d' \<le> k \<longrightarrow> out' ! k = out ! k"
      using same d' by (auto simp: out1 nth_list_update)
    have c5: "\<forall>k. d \<le> k \<and> k < d' \<longrightarrow>
        (\<exists>p. py_index (length out) (int k - off) = Some p \<and>
             out' ! k = (if d \<le> p \<and> p < k then out' ! p else out ! p))"
    proof (intro allI impI)
      fix k assume k: "d \<le> k \<and> k < d'"
      show "\<exists>p. py_index (length out) (int k - off) = Some p \<and>
             out' ! k = (if d \<le> p \<and> p < k then out' ! p else out ! p)"
      proof (cases "k = d")
        case True
        have "out' ! d = out1 ! d" by (rule same) simp
        also have "\<dots> = v" using dl by (simp add: out1)
        finally show ?thesis using p0 True by auto
      next
        case False
        with k have k1: "d + 1 \<le> k" "k < d'" by auto
        from pt [OF k1] obtain p where
          p: "py_index (length out) (int k - off) = Some p"
             "out' ! k = (if d + 1 \<le> p \<and> p < k then out' ! p else out1 ! p)" by blast
        have "out' ! d = out1 ! d" by (rule same) simp
        then have "out' ! k = (if d \<le> p \<and> p < k then out' ! p else out ! p)"
          using p(2) k1 dl by (auto simp: out1 nth_list_update)
        with p(1) show ?thesis by blast
      qed
    qed
    from c1 len c3 c4 c5 show ?thesis by blast
  qed
qed

lemma copy_loop_Inl: "copy_loop n sz off d out = Inl e \<Longrightarrow> e = IndexError"
  by (induction n arbitrary: d out)
     (auto split: if_splits sum.splits dest: getitem_Inl setitem_Inl)

lemma copy_loop_ok:
  "length out = sz \<Longrightarrow> 0 < off \<Longrightarrow> - int sz \<le> int d - off \<Longrightarrow>
     \<exists>d' out'. copy_loop n sz off d out = Inr (d', out')"
proof (induction n arbitrary: d out)
  case 0
  then show ?case by simp
next
  case (Suc n)
  show ?case
  proof (cases "sz \<le> d")
    case True
    then show ?thesis by simp
  next
    case False
    with Suc.prems have "py_index (length out) (int d - off) \<noteq> None"
      by (simp add: py_index_None_iff)
    then obtain v where rd: "getitem out (int d - off) = Inr v"
      by (auto simp: getitem_def)
    from False Suc.prems have wr: "setitem out (int d) v = Inr (out[d := v])"
      by (simp add: setitem_nat)
    have "\<exists>d' out'. copy_loop n sz off (d + 1) (out[d := v]) = Inr (d', out')"
      using Suc.prems by (intro Suc.IH) simp_all
    with False rd wr show ?thesis by simp
  qed
qed

lemma copy_loop_fail:
  "length out = sz \<Longrightarrow> d < sz \<Longrightarrow> 0 < n \<Longrightarrow> int d - off < - int sz \<Longrightarrow>
     copy_loop n sz off d out = Inl IndexError"
  by (cases n) (simp_all add: getitem_def py_index_def)

lemma copy_loop_fail_iff:
  assumes "length out = sz" "d < sz" "0 < n" "0 < off"
  shows "copy_loop n sz off d out = Inl IndexError \<longleftrightarrow> int sz < off - int d"
proof
  assume f: "copy_loop n sz off d out = Inl IndexError"
  show "int sz < off - int d"
  proof (rule ccontr)
    assume "\<not> int sz < off - int d"
    then have "- int sz \<le> int d - off" by simp
    from copy_loop_ok [OF assms(1) assms(4) this, of n] f show False by auto
  qed
next
  assume "int sz < off - int d"
  then have "int d - off < - int sz" by simp
  from copy_loop_fail [OF assms(1-3) this] show "copy_loop n sz off d out = Inl IndexError" .
qed

lemma copy_loop_append:
  "copy_loop (m + n) sz off d out =
     (case copy_loop m sz off d out of
        Inl e \<Rightarrow> Inl e
      | Inr (d1, out1) \<Rightarrow> copy_loop n sz off d1 out1)"
proof (induction m arbitrary: d out)
  case 0
  show ?case by simp
next
  case (Suc m)
  show ?case
  proof (cases "sz \<le> d")
    case True
    then have "copy_loop n sz off d out = Inr (d, out)" by (cases n) simp_all
    with True show ?thesis by simp
  next
    case False
    then show ?thesis by (simp add: Suc.IH split: sum.splits)
  qed
qed

lemma copy_loop_back:
  assumes "copy_loop n sz off d out = Inr (d', out')" "0 < off" "off \<le> int d"
  shows "\<forall>k. d \<le> k \<and> k < d' \<longrightarrow> out' ! k = out' ! (k - nat off)"
proof (intro allI impI)
  fix k assume k: "d \<le> k \<and> k < d'"
  from copy_loop_spec [OF assms(1)] have
    cap: "d < d' \<longrightarrow> d' \<le> length out" and
    same: "\<forall>k. k < d \<or> d' \<le> k \<longrightarrow> out' ! k = out ! k" and
    pt: "\<forall>k. d \<le> k \<and> k < d' \<longrightarrow>
        (\<exists>p. py_index (length out) (int k - off) = Some p \<and>
             out' ! k = (if d \<le> p \<and> p < k then out' ! p else out ! p))"
    by blast+
  from pt k obtain p where p: "py_index (length out) (int k - off) = Some p"
    "out' ! k = (if d \<le> p \<and> p < k then out' ! p else out ! p)" by blast
  from k cap have "k < length out" by simp
  with assms(2,3) k have "py_index (length out) (int k - off) = Some (k - nat off)"
    by (auto simp: py_index_def nat_diff_distrib)
  with p have pe: "p = k - nat off" by simp
  from assms(2,3) k have "p < k" unfolding pe by linarith
  with p(2) same show "out' ! k = out' ! (k - nat off)" by (auto simp: pe)
qed

lemma zero_tail_iff:
  "length out = sz \<Longrightarrow>
     drop d out = replicate (sz - d) (0::byte) \<longleftrightarrow> (\<forall>p. d \<le> p \<and> p < sz \<longrightarrow> out ! p = 0)"
proof -
  assume l: "length out = sz"
  have "drop d out = replicate (sz - d) 0 \<longleftrightarrow> (\<forall>i < sz - d. out ! (d + i) = 0)"
    using l by (auto simp: list_eq_iff_nth_eq)
  also have "\<dots> \<longleftrightarrow> (\<forall>p. d \<le> p \<and> p < sz \<longrightarrow> out ! p = 0)"
  proof (intro iffI allI impI)
    fix p assume a: "\<forall>i < sz - d. out ! (d + i) = 0" and p: "d \<le> p \<and> p < sz"
    then have "out ! (d + (p - d)) = 0" by (intro a [rule_format]) arith
    with p show "out ! p = 0" by simp
  next
    fix i assume "\<forall>p. d \<le> p \<and> p < sz \<longrightarrow> out ! p = 0" "i < sz - d"
    then show "out ! (d + i) = 0" by simp
  qed
  finally show ?thesis .
qed

lemma copy_loop_zero_tail:
  assumes "copy_loop n sz off d out = Inr (d', out')" "length out = sz"
    "drop d out = replicate (sz - d) 0"
  shows "drop d' out' = replicate (sz - d') 0"
proof -
  from copy_loop_spec [OF assms(1)] have
    d': "d \<le> d'" and l: "length out' = length out" and
    same: "\<forall>k. k < d \<or> d' \<le> k \<longrightarrow> out' ! k = out ! k"
    by auto
  from assms(3) have "\<forall>p. d \<le> p \<and> p < sz \<longrightarrow> out ! p = 0"
    using zero_tail_iff [OF assms(2), of d] by blast
  with d' same have "\<forall>p. d' \<le> p \<and> p < sz \<longrightarrow> out' ! p = 0" by auto
  moreover from l assms(2) have "length out' = sz" by simp
  ultimately show ?thesis using zero_tail_iff [of out' sz d'] by blast
qed

lemma setitem_zero_tail:
  assumes "setitem (out :: byte list) (int d) v = Inr out'" "length out = sz"
    "drop d out = replicate (sz - d) 0"
  shows "drop (d + 1) out' = replicate (sz - (d + 1)) 0"
proof -
  from assms(1) have o: "out' = out[d := v]" "d < length out" by (auto dest: setitem_nat_Inr)
  from assms(3) have "\<forall>p. d \<le> p \<and> p < sz \<longrightarrow> out ! p = 0"
    using zero_tail_iff [OF assms(2), of d] by blast
  then have "\<forall>p. d + 1 \<le> p \<and> p < sz \<longrightarrow> out' ! p = 0" by (auto simp: o)
  moreover from assms(2) o have "length out' = sz" by simp
  ultimately show ?thesis using zero_tail_iff [of out' sz "d + 1"] by blast
qed

section \<open>The loop over the bits of a flag byte\<close>

lemma unit_loop_Inl: "unit_loop data sz flags k (s, d, out) = Inl e \<Longrightarrow> e = IndexError"
  by (induction k arbitrary: s d out)
     (auto split: if_splits sum.splits dest: getitem_Inl setitem_Inl copy_loop_Inl)

lemma unit_loop_spec:
  "unit_loop data sz flags k (s, d, out) = Inr (s', d', out') \<Longrightarrow>
     d \<le> d' \<and> length out' = length out \<and> (d \<le> sz \<longrightarrow> d' \<le> sz) \<and>
     (0 < k \<and> d < sz \<longrightarrow> d < d') \<and> s \<le> s' \<and>
     (0 \<le> s \<and> s \<le> int (length data) \<longrightarrow> s' \<le> int (length data))"
proof (induction k arbitrary: s d out)
  case 0
  then show ?case by simp
next
  case (Suc k)
  show ?case
  proof (cases "sz \<le> d")
    case True
    with Suc.prems show ?thesis by simp
  next
    case nd: False
    show ?thesis
    proof (cases "uint flags AND push_bit k 1 \<noteq> 0")
      case True
      with nd Suc.prems obtain byte1 byte2 d1 out1 where
        b1: "getitem data s = Inr byte1" and
        b2: "getitem data (s + 1) = Inr byte2" and
        cp: "copy_loop (nat (ref_length byte1)) sz (ref_offset byte1 byte2) d out = Inr (d1, out1)" and
        rest: "unit_loop data sz flags k (s + 2, d1, out1) = Inr (s', d', out')"
        by (auto split: sum.splits)
      from copy_loop_spec [OF cp] have
        d1: "d1 = max d (min (d + nat (ref_length byte1)) sz)" and l1: "length out1 = length out"
        by blast+
      have "3 \<le> ref_length byte1" using ref_length_bounds by blast
      with d1 nd have dd: "d < d1" "d1 \<le> sz" by auto
      have sb: "0 \<le> s \<Longrightarrow> s + 2 \<le> int (length data)"
        using getitem_pos [OF b2] by simp
      from Suc.IH [OF rest] dd l1 sb show ?thesis by auto
    next
      case False
      with nd Suc.prems obtain v out1 where
        b1: "getitem data s = Inr v" and
        wr: "setitem out (int d) v = Inr out1" and
        rest: "unit_loop data sz flags k (s + 1, d + 1, out1) = Inr (s', d', out')"
        by (auto split: sum.splits)
      from wr have l1: "length out1 = length out" by (auto dest: setitem_nat_Inr)
      have sb: "0 \<le> s \<Longrightarrow> s + 1 \<le> int (length data)"
        using getitem_pos [OF b1] by simp
      from Suc.IH [OF rest] nd l1 sb show ?thesis by auto
    qed
  qed
qed

lemma unit_loop_done: "sz \<le> d \<Longrightarrow> unit_loop data sz flags k (s, d, out) = Inr (s, d, out)"
  by (cases k) simp_all

lemma unit_loop_reference:
  "d < sz \<Longrightarrow> uint flags AND push_bit i 1 \<noteq> 0 \<Longrightarrow> getitem data s = Inr b1 \<Longrightarrow>
   getitem data (s + 1) = Inr b2 \<Longrightarrow>
     unit_loop data sz flags (Suc i) (s, d, out) =
       (case copy_loop (nat (ref_length b1)) sz (ref_offset b1 b2) d out of
          Inl e \<Rightarrow> Inl e
        | Inr (d', out') \<Rightarrow> unit_loop data sz flags i (s + 2, d', out'))"
  by simp

lemma unit_loop_zero_tail:
  "unit_loop data sz flags k (s, d, out) = Inr (s', d', out') \<Longrightarrow> length out = sz \<Longrightarrow>
     drop d out = replicate (sz - d) 0 \<Longrightarrow> drop d' out' = replicate (sz - d') 0"
proof (induction k arbitrary: s d out)
  case 0
  then show ?case by simp
next
  case (Suc k)
  show ?case
  proof (cases "sz \<le> d")
    case True
    with Suc.prems show ?thesis by simp
  next
    case nd: False
    show ?thesis
    proof (cases "uint flags AND push_bit k 1 \<noteq> 0")
      case True
      with nd Suc.prems obtain byte1 byte2 d1 out1 where
        cp: "copy_loop (nat (ref_length byte1)) sz (ref_offset byte1 byte2) d out = Inr (d1, out1)" and
        rest: "unit_loop data sz flags k (s + 2, d1, out1) = Inr (s', d', out')"
        by (auto split: sum.splits)
      from copy_loop_spec [OF cp] Suc.prems have l1: "length out1 = sz" by simp
      from copy_loop_zero_tail [OF cp Suc.prems(2,3)] Suc.IH [OF rest l1]
      show ?thesis by simp
    next
      case False
      with nd Suc.prems obtain v out1 where
        wr: "setitem out (int d) v = Inr out1" and
        rest: "unit_loop data sz flags k (s + 1, d + 1, out1) = Inr (s', d', out')"
        by (auto split: sum.splits)
      from wr Suc.prems have l1: "length out1 = sz" by (auto dest: setitem_nat_Inr)
      from setitem_zero_tail [OF wr Suc.prems(2,3)] Suc.IH [OF rest l1]
      show ?thesis by simp
    qed
  qed
qed

lemma unit_loop_take:
  "unit_loop data sz flags k (s, d, out) = Inr (s', d', out') \<Longrightarrow> 0 \<le> s \<Longrightarrow> s \<le> int n \<Longrightarrow>
     unit_loop (take n data) sz flags k (s, d, out)
       = (if s' \<le> int n then Inr (s', d', out') else Inl IndexError)"
proof (induction k arbitrary: s d out)
  case 0
  then show ?case by simp
next
  case (Suc k)
  show ?case
  proof (cases "sz \<le> d")
    case True
    with Suc.prems show ?thesis by simp
  next
    case nd: False
    show ?thesis
    proof (cases "uint flags AND push_bit k 1 \<noteq> 0")
      case True
      with nd Suc.prems obtain byte1 byte2 d1 out1 where
        b1: "getitem data s = Inr byte1" and
        b2: "getitem data (s + 1) = Inr byte2" and
        cp: "copy_loop (nat (ref_length byte1)) sz (ref_offset byte1 byte2) d out = Inr (d1, out1)" and
        rest: "unit_loop data sz flags k (s + 2, d1, out1) = Inr (s', d', out')"
        by (auto split: sum.splits)
      from unit_loop_spec [OF rest] have mono: "s + 2 \<le> s'" by simp
      show ?thesis
      proof (cases "s + 2 \<le> int n")
        case True
        with Suc.prems have "getitem (take n data) s = Inr byte1"
          "getitem (take n data) (s + 1) = Inr byte2"
          using b1 b2 by (simp_all add: getitem_take_in)
        moreover from Suc.IH [OF rest] True Suc.prems
        have "unit_loop (take n data) sz flags k (s + 2, d1, out1)
            = (if s' \<le> int n then Inr (s', d', out') else Inl IndexError)" by simp
        ultimately show ?thesis using nd \<open>uint flags AND push_bit k 1 \<noteq> 0\<close> cp by simp
      next
        case False
        with Suc.prems consider "s = int n" | "s + 1 = int n" by linarith
        then have "unit_loop (take n data) sz flags (Suc k) (s, d, out) = Inl IndexError"
        proof cases
          case 1
          then have "getitem (take n data) s = Inl IndexError" by (simp add: getitem_take_out)
          with nd \<open>uint flags AND push_bit k 1 \<noteq> 0\<close> show ?thesis by simp
        next
          case 2
          with Suc.prems have "getitem (take n data) s = Inr byte1"
            using b1 by (simp add: getitem_take_in)
          moreover from 2 have "getitem (take n data) (s + 1) = Inl IndexError"
            by (simp add: getitem_take_out)
          ultimately show ?thesis using nd \<open>uint flags AND push_bit k 1 \<noteq> 0\<close> by simp
        qed
        with False mono show ?thesis by simp
      qed
    next
      case lit: False
      with nd Suc.prems obtain v out1 where
        b1: "getitem data s = Inr v" and
        wr: "setitem out (int d) v = Inr out1" and
        rest: "unit_loop data sz flags k (s + 1, d + 1, out1) = Inr (s', d', out')"
        by (auto split: sum.splits)
      from unit_loop_spec [OF rest] have mono: "s + 1 \<le> s'" by simp
      show ?thesis
      proof (cases "s + 1 \<le> int n")
        case True
        with Suc.prems have "getitem (take n data) s = Inr v"
          using b1 by (simp add: getitem_take_in)
        moreover from Suc.IH [OF rest] True Suc.prems
        have "unit_loop (take n data) sz flags k (s + 1, d + 1, out1)
            = (if s' \<le> int n then Inr (s', d', out') else Inl IndexError)" by simp
        ultimately show ?thesis using nd lit wr by simp
      next
        case False
        with Suc.prems have "s = int n" by simp
        then have "getitem (take n data) s = Inl IndexError" by (simp add: getitem_take_out)
        with nd lit have "unit_loop (take n data) sz flags (Suc k) (s, d, out) = Inl IndexError"
          by simp
        with False mono show ?thesis by simp
      qed
    qed
  qed
qed

lemma zero_stream_getitem:
  "4 \<le> s \<Longrightarrow> s < 4 + int m \<Longrightarrow> getitem ([t, b1, b2, b3] @ replicate m (0::byte)) s = Inr 0"
proof -
  assume a: "4 \<le> s" "s < 4 + int m"
  then have "nat s - 4 < m" by simp
  moreover from a have "\<not> nat s < 4" by simp
  ultimately have "([t, b1, b2, b3] @ replicate m 0) ! nat s = 0"
    by (simp add: nth_append)
  with a show ?thesis by (simp add: getitem_def py_index_def)
qed

lemma unit_loop_zero_stream:
  "4 \<le> s \<Longrightarrow> s + int (min k (sz - d)) \<le> 4 + int m \<Longrightarrow>
     unit_loop ([t, b1, b2, b3] @ replicate m 0) sz 0 k (s, d, replicate sz 0)
       = Inr (s + int (min k (sz - d)), d + min k (sz - d), replicate sz 0)"
proof (induction k arbitrary: s d)
  case 0
  then show ?case by simp
next
  case (Suc k)
  show ?case
  proof (cases "sz \<le> d")
    case True
    then show ?thesis by simp
  next
    case False
    from False have mn: "min (Suc k) (sz - d) = 1 + min k (sz - (d + 1))" by auto
    from Suc.prems mn have g: "getitem ([t, b1, b2, b3] @ replicate m 0) s = Inr 0"
      by (intro zero_stream_getitem) simp_all
    from False have w: "setitem (replicate sz (0::byte)) (int d) 0 = Inr (replicate sz 0)"
      by (simp add: setitem_nat replicate_update_same)
    from Suc.prems mn have "unit_loop ([t, b1, b2, b3] @ replicate m 0) sz 0 k (s + 1, d + 1, replicate sz 0)
       = Inr (s + 1 + int (min k (sz - (d + 1))), d + 1 + min k (sz - (d + 1)), replicate sz 0)"
      by (intro Suc.IH) simp_all
    with mn show ?thesis using False g w by simp
  qed
qed

lemma unit_loop_update_before:
  "int k < s \<Longrightarrow>
     unit_loop (data[k := t]) sz flags j (s, d, out) = unit_loop data sz flags j (s, d, out)"
proof (induction j arbitrary: s d out)
  case 0
  show ?case by simp
next
  case (Suc j)
  from Suc.prems have g: "getitem (data[k := t]) s = getitem data s"
    "getitem (data[k := t]) (s + 1) = getitem data (s + 1)"
    by (simp_all add: getitem_update_other)
  from Suc.prems have ih: "\<And>d out. unit_loop (data[k := t]) sz flags j (s + 1, d, out)
        = unit_loop data sz flags j (s + 1, d, out)"
      "\<And>d out. unit_loop (data[k := t]) sz flags j (s + 2, d, out)
        = unit_loop data sz flags j (s + 2, d, out)"
    by (simp_all add: Suc.IH)
  show ?case by (simp add: g ih split: sum.splits)
qed

section \<open>The flag-byte loop and the whole call\<close>

lemma flag_loop_done: "sz \<le> d \<Longrightarrow> flag_loop data sz (s, d, out) = Some (Inr (s, d, out))"
  by (subst flag_loop.simps) simp

lemma flag_loop_total:
  "\<exists>r. flag_loop data sz (s, d, out) = Some r \<and>
       (\<forall>e. r = Inl e \<longrightarrow> e = IndexError) \<and>
       (\<forall>s' d' out'. r = Inr (s', d', out') \<longrightarrow>
          sz \<le> d' \<and> d \<le> d' \<and> (d \<le> sz \<longrightarrow> d' = sz) \<and> length out' = length out \<and>
          (0 \<le> s \<and> s \<le> int (length data) \<longrightarrow> s' \<le> int (length data)))"
proof (induction "sz - d" arbitrary: s d out rule: less_induct)
  case less
  show ?case
  proof (cases "d < sz")
    case False
    then show ?thesis by (subst flag_loop.simps) auto
  next
    case dlt: True
    show ?thesis
    proof (cases "getitem data s")
      case (Inl e)
      with dlt show ?thesis
        by (subst flag_loop.simps) (auto dest: getitem_Inl)
    next
      case (Inr flags)
      show ?thesis
      proof (cases "unit_loop data sz flags 8 (s + 1, d, out)")
        case (Inl e)
        with dlt Inr show ?thesis
          by (subst flag_loop.simps) (auto dest: unit_loop_Inl)
      next
        case ul: (Inr st')
        obtain s1 d1 out1 where st': "st' = (s1, d1, out1)" by (cases st') auto
        from unit_loop_spec [OF ul [unfolded st']] dlt have
          p: "d < d1" "d1 \<le> sz" "length out1 = length out" "s + 1 \<le> s1"
             "0 \<le> s + 1 \<and> s + 1 \<le> int (length data) \<longrightarrow> s1 \<le> int (length data)"
          by auto
        have sb: "0 \<le> s \<Longrightarrow> s + 1 \<le> int (length data)"
          using getitem_pos [OF Inr] by simp
        have "sz - d1 < sz - d" using p dlt by arith
        from less [OF this, of s1 out1] obtain r where
          r: "flag_loop data sz (s1, d1, out1) = Some r"
             "\<forall>e. r = Inl e \<longrightarrow> e = IndexError"
             "\<forall>s' d' out'. r = Inr (s', d', out') \<longrightarrow>
                sz \<le> d' \<and> d1 \<le> d' \<and> (d1 \<le> sz \<longrightarrow> d' = sz) \<and> length out' = length out1 \<and>
                (0 \<le> s1 \<and> s1 \<le> int (length data) \<longrightarrow> s' \<le> int (length data))"
          by blast
        have eq: "flag_loop data sz (s, d, out) = Some r"
          using dlt Inr ul st' r(1) by (subst flag_loop.simps) simp
        show ?thesis
          using eq r(2,3) p sb by (intro exI [of _ r]) auto
      qed
    qed
  qed
qed

lemma flag_loop_Some: "\<exists>r. flag_loop data sz (s, d, out) = Some r"
  using flag_loop_total [of data sz s d out] by blast

lemma flag_loop_mono:
  "flag_loop data sz (s, d, out) = Some (Inr (s', d', out')) \<Longrightarrow> s \<le> s'"
proof (induction "sz - d" arbitrary: s d out rule: less_induct)
  case less
  show ?case
  proof (cases "d < sz")
    case False
    with less.prems show ?thesis by (simp add: flag_loop_done)
  next
    case dlt: True
    from less.prems dlt obtain flags s1 d1 out1 where
      ul: "unit_loop data sz flags 8 (s + 1, d, out) = Inr (s1, d1, out1)" and
      rest: "flag_loop data sz (s1, d1, out1) = Some (Inr (s', d', out'))"
      by (subst (asm) flag_loop.simps) (auto split: sum.splits)
    from unit_loop_spec [OF ul] dlt have p: "d < d1" "s + 1 \<le> s1" by auto
    then have "sz - d1 < sz - d" using dlt by arith
    from less.hyps [OF this rest] p show ?thesis by simp
  qed
qed

lemma flag_loop_take:
  "flag_loop data sz (s, d, out) = Some (Inr (s', d', out')) \<Longrightarrow> 0 \<le> s \<Longrightarrow> s \<le> int n \<Longrightarrow>
     flag_loop (take n data) sz (s, d, out)
       = Some (if s' \<le> int n then Inr (s', d', out') else Inl IndexError)"
proof (induction "sz - d" arbitrary: s d out rule: less_induct)
  case less
  show ?case
  proof (cases "d < sz")
    case False
    then have "flag_loop data sz (s, d, out) = Some (Inr (s, d, out))"
      "flag_loop (take n data) sz (s, d, out) = Some (Inr (s, d, out))"
      by (simp_all add: flag_loop_done)
    with less.prems show ?thesis by simp
  next
    case dlt: True
    from less.prems(1) dlt obtain flags s1 d1 out1 where
      fl: "getitem data s = Inr flags" and
      ul: "unit_loop data sz flags 8 (s + 1, d, out) = Inr (s1, d1, out1)" and
      rest: "flag_loop data sz (s1, d1, out1) = Some (Inr (s', d', out'))"
      by (subst (asm) flag_loop.simps) (auto split: sum.splits)
    from unit_loop_spec [OF ul] dlt have p: "d < d1" "s + 1 \<le> s1" by auto
    then have m: "sz - d1 < sz - d" using dlt by arith
    from p less.prems have s1: "0 \<le> s1" by simp
    from flag_loop_mono [OF rest] have mono: "s1 \<le> s'" .
    show ?thesis
    proof (cases "s1 \<le> int n")
      case True
      from less.hyps [OF m rest s1 True]
      have ih: "flag_loop (take n data) sz (s1, d1, out1)
          = Some (if s' \<le> int n then Inr (s', d', out') else Inl IndexError)" .
      from True p less.prems have "getitem (take n data) s = Inr flags"
        using fl by (simp add: getitem_take_in)
      moreover from unit_loop_take [OF ul, of n] True p less.prems
      have "unit_loop (take n data) sz flags 8 (s + 1, d, out) = Inr (s1, d1, out1)" by simp
      ultimately have "flag_loop (take n data) sz (s, d, out)
          = flag_loop (take n data) sz (s1, d1, out1)"
        using dlt by (subst flag_loop.simps) simp
      with ih show ?thesis by simp
    next
      case False
      have "flag_loop (take n data) sz (s, d, out) = Some (Inl IndexError)"
      proof (cases "s = int n")
        case True
        then have "getitem (take n data) s = Inl IndexError" by (simp add: getitem_take_out)
        with dlt show ?thesis by (subst flag_loop.simps) simp
      next
        case sn: False
        with less.prems have "getitem (take n data) s = Inr flags"
          using fl by (simp add: getitem_take_in)
        moreover from unit_loop_take [OF ul, of n] False sn less.prems
        have "unit_loop (take n data) sz flags 8 (s + 1, d, out) = Inl IndexError" by simp
        ultimately show ?thesis using dlt by (subst flag_loop.simps) simp
      qed
      with False mono show ?thesis by simp
    qed
  qed
qed

lemma flag_loop_zero_stream:
  "4 \<le> s \<Longrightarrow> d \<le> sz \<Longrightarrow> s + int (sz - d) + int ((sz - d + 7) div 8) \<le> 4 + int m \<Longrightarrow>
     \<exists>s'. flag_loop ([t, b1, b2, b3] @ replicate m 0) sz (s, d, replicate sz 0)
       = Some (Inr (s', sz, replicate sz 0))"
proof (induction "sz - d" arbitrary: s d rule: less_induct)
  case less
  let ?data = "[t, b1, b2, b3] @ replicate m 0"
  show ?case
  proof (cases "d < sz")
    case False
    with less.prems have "d = sz" by simp
    then show ?thesis by (simp add: flag_loop_done)
  next
    case True
    then have pos: "1 \<le> (sz - d + 7) div 8" by simp
    with less.prems True have g: "getitem ?data s = Inr 0"
      by (intro zero_stream_getitem) simp_all
    have "int (min 8 (sz - d)) \<le> int (sz - d)" by simp
    with less.prems pos have
      ul: "unit_loop ?data sz 0 8 (s + 1, d, replicate sz 0)
        = Inr (s + 1 + int (min 8 (sz - d)), d + min 8 (sz - d), replicate sz 0)"
      by (intro unit_loop_zero_stream) simp_all
    from True g ul have step: "flag_loop ?data sz (s, d, replicate sz 0)
        = flag_loop ?data sz (s + 1 + int (min 8 (sz - d)), d + min 8 (sz - d), replicate sz 0)"
      by (subst flag_loop.simps) simp
    show ?thesis
    proof (cases "sz - d \<le> 8")
      case True
      with \<open>d < sz\<close> have "d + min 8 (sz - d) = sz" by simp
      with step show ?thesis by (simp add: flag_loop_done)
    next
      case False
      then have m8: "min 8 (sz - d) = 8" by simp
      from False have dv: "(sz - (d + 8) + 7) div 8 + 1 = (sz - d + 7) div 8" by arith
      from False have "sz - (d + 8) < sz - d" by simp
      moreover have "4 \<le> s + 1 + 8" using less.prems by simp
      moreover from False have "d + 8 \<le> sz" by simp
      moreover from less.prems False dv
      have "s + 1 + 8 + int (sz - (d + 8)) + int ((sz - (d + 8) + 7) div 8) \<le> 4 + int m"
        by (simp add: of_nat_diff)
      ultimately have "\<exists>s'. flag_loop ?data sz (s + 1 + 8, d + 8, replicate sz 0)
          = Some (Inr (s', sz, replicate sz 0))"
        by (rule less.hyps)
      with step m8 show ?thesis by simp
    qed
  qed
qed

lemma run_success:
  assumes "decompress_lz77_run data src_offset = Some (Inr (s', d', out'))"
  shows "header_size data src_offset = Inr d' \<and> length out' = d'"
proof -
  from assms obtain sz where h: "header_size data src_offset = Inr sz"
    and f: "flag_loop data sz (src_offset + 4, 0, replicate sz 0) = Some (Inr (s', d', out'))"
    by (auto simp: decompress_lz77_run_def split: sum.splits)
  from flag_loop_total [of data sz "src_offset + 4" 0 "replicate sz 0"] f
  have "d' = sz" "length out' = sz" by auto
  with h show ?thesis by simp
qed

lemma run_total: "\<exists>r. decompress_lz77_run data src_offset = Some r"
  by (cases "header_size data src_offset") (simp_all add: decompress_lz77_run_def flag_loop_Some)

lemma run_Inl: "decompress_lz77_run data src_offset = Some (Inl e) \<Longrightarrow> e = IndexError \<or> e = StructError"
proof (cases "header_size data src_offset")
  case (Inl e')
  assume "decompress_lz77_run data src_offset = Some (Inl e)"
  with Inl have "e = e'" by (simp add: decompress_lz77_run_def)
  moreover from Inl have "e' = StructError"
    by (auto simp: header_size_eq Let_def split: if_splits)
  ultimately show ?thesis by simp
next
  case (Inr sz)
  assume "decompress_lz77_run data src_offset = Some (Inl e)"
  with Inr have "flag_loop data sz (src_offset + 4, 0, replicate sz 0) = Some (Inl e)"
    by (simp add: decompress_lz77_run_def)
  with flag_loop_total [of data sz "src_offset + 4" 0 "replicate sz 0"] show ?thesis by auto
qed

lemma run_take:
  assumes "decompress_lz77_run data src_offset = Some (Inr (s', d', out'))"
    "0 \<le> src_offset" "src_offset + 4 \<le> int n"
  shows "decompress_lz77_run (take n data) src_offset
       = Some (if s' \<le> int n then Inr (s', d', out') else Inl IndexError)"
proof -
  from assms(1) obtain sz where h: "header_size data src_offset = Inr sz"
    and f: "flag_loop data sz (src_offset + 4, 0, replicate sz 0) = Some (Inr (s', d', out'))"
    by (auto simp: decompress_lz77_run_def split: sum.splits)
  from flag_loop_take [OF f, of n] assms(2,3)
  have "flag_loop (take n data) sz (src_offset + 4, 0, replicate sz 0)
      = Some (if s' \<le> int n then Inr (s', d', out') else Inl IndexError)" by simp
  with h header_size_take [OF assms(2,3), of data] show ?thesis
    by (simp add: decompress_lz77_run_def)
qed

lemma run_consumed:
  assumes "decompress_lz77_run data src_offset = Some (Inr (s', d', out'))" "0 \<le> src_offset"
  shows "src_offset + 4 \<le> s' \<and> s' \<le> int (length data)"
proof -
  from assms(1) obtain sz where h: "header_size data src_offset = Inr sz"
    and f: "flag_loop data sz (src_offset + 4, 0, replicate sz 0) = Some (Inr (s', d', out'))"
    by (auto simp: decompress_lz77_run_def split: sum.splits)
  from h have "length (getslice data src_offset (src_offset + 4)) = 4"
    by (auto simp: header_size_eq Let_def split: if_splits)
  with assms(2) have "src_offset + 4 \<le> int (length data)"
    by (auto simp: getslice_nonneg)
  with flag_loop_total [of data sz "src_offset + 4" 0 "replicate sz 0"] f assms(2)
  have "s' \<le> int (length data)" by auto
  with flag_loop_mono [OF f] show ?thesis by simp
qed

lemma decompress_lz77_Inr:
  "decompress_lz77 data src_offset = Some (Inr res) \<longleftrightarrow>
     (\<exists>s' d'. decompress_lz77_run data src_offset = Some (Inr (s', d', res)))"
  by (cases "decompress_lz77_run data src_offset")
     (auto simp: decompress_lz77_def map_sum_def split: sum.splits)

lemma decompress_lz77_Inl:
  "decompress_lz77 data src_offset = Some (Inl e) \<longleftrightarrow>
     decompress_lz77_run data src_offset = Some (Inl e)"
  by (cases "decompress_lz77_run data src_offset")
     (auto simp: decompress_lz77_def map_sum_def split: sum.splits)

lemma every_size_decodes:
  assumes "sz < 2 ^ 24"
  shows "\<exists>data. header_size data 0 = Inr sz \<and> decompress_lz77 data 0 = Some (Inr (replicate sz 0))"
proof -
  let ?data = "[0, word_of_nat sz, word_of_nat (sz div 256), word_of_nat (sz div 65536)]
      @ replicate (sz + (sz + 7) div 8) (0::byte)"
  have h: "header_size ?data 0 = Inr sz"
    using size_bytes [OF assms] by (simp add: header_size_eq getslice_nonneg Let_def)
  have "\<exists>s'. flag_loop ?data sz (0 + 4, 0, replicate sz 0) = Some (Inr (s', sz, replicate sz 0))"
    by (intro flag_loop_zero_stream) simp_all
  with h have "decompress_lz77 ?data 0 = Some (Inr (replicate sz 0))"
    by (auto simp: decompress_lz77_def decompress_lz77_run_def)
  with h show ?thesis by blast
qed

lemma flag_loop_update_before:
  "int k < s \<Longrightarrow> flag_loop (data[k := t]) sz (s, d, out) = flag_loop data sz (s, d, out)"
proof (induction "sz - d" arbitrary: s d out rule: less_induct)
  case less
  show ?case
  proof (cases "d < sz")
    case False
    then show ?thesis by (simp add: flag_loop_done)
  next
    case dlt: True
    from less.prems have g: "getitem (data[k := t]) s = getitem data s"
      by (simp add: getitem_update_other)
    show ?thesis
    proof (cases "getitem data s")
      case (Inl e)
      from dlt Inl have "flag_loop data sz (s, d, out) = Some (Inl e)"
        by (subst flag_loop.simps) simp
      moreover from dlt g Inl have "flag_loop (data[k := t]) sz (s, d, out) = Some (Inl e)"
        by (subst flag_loop.simps) simp
      ultimately show ?thesis by simp
    next
      case (Inr flags)
      from less.prems have u: "unit_loop (data[k := t]) sz flags 8 (s + 1, d, out)
          = unit_loop data sz flags 8 (s + 1, d, out)"
        by (simp add: unit_loop_update_before)
      show ?thesis
      proof (cases "unit_loop data sz flags 8 (s + 1, d, out)")
        case (Inl e)
        from dlt Inr Inl have "flag_loop data sz (s, d, out) = Some (Inl e)"
          by (subst flag_loop.simps) simp
        moreover from dlt g Inr u Inl have "flag_loop (data[k := t]) sz (s, d, out) = Some (Inl e)"
          by (subst flag_loop.simps) simp
        ultimately show ?thesis by simp
      next
        case ul: (Inr st')
        obtain s1 d1 out1 where st': "st' = (s1, d1, out1)" by (cases st') auto
        from unit_loop_spec [OF ul [unfolded st']] dlt have p: "d < d1" "s + 1 \<le> s1" by auto
        then have "sz - d1 < sz - d" using dlt by arith
        moreover from p less.prems have "int k < s1" by simp
        ultimately have ih: "flag_loop (data[k := t]) sz (s1, d1, out1)
            = flag_loop data sz (s1, d1, out1)"
          by (rule less.hyps)
        from dlt Inr ul st' have "flag_loop data sz (s, d, out) = flag_loop data sz (s1, d1, out1)"
          by (subst flag_loop.simps) simp
        moreover from dlt g Inr u ul st'
        have "flag_loop (data[k := t]) sz (s, d, out) = flag_loop (data[k := t]) sz (s1, d1, out1)"
          by (subst flag_loop.simps) simp
        ultimately show ?thesis using ih by simp
      qed
    qed
  qed
qed

lemma decompress_lz77_tag_free:
  assumes "0 \<le> src_offset"
  shows "decompress_lz77 (data[nat src_offset := tag]) src_offset = decompress_lz77 data src_offset"
proof -
  from assms have h: "header_size (data[nat src_offset := tag]) src_offset = header_size data src_offset"
    by (simp add: header_size_eq Let_def getslice_set_tag)
  from assms have "int (nat src_offset) < src_offset + 4" by simp
  then have "\<And>sz. flag_loop (data[nat src_offset := tag]) sz (src_offset + 4, 0, replicate sz 0)
      = flag_loop data sz (src_offset + 4, 0, replicate sz 0)"
    by (rule flag_loop_update_before)
  with h show ?thesis
    by (cases "header_size data src_offset")
       (simp_all add: decompress_lz77_def decompress_lz77_run_def)
qed

section \<open>The claims\<close>

text \<open>
  C1. With a header that declares size 5 (whatever its low byte), followed by the flag byte
  \<open>0x40\<close> and the bytes \<open>0x41, 0x00, 0x00, 0x42\<close>, \<open>decompress_lz77\<close> returns
  \<open>[0x41, 0x41, 0x41, 0x41, 0x42]\<close>. The reference bytes \<open>0x00 0x00\<close> decode to length 3
  and distance 1, and the copy started at cursor 1 over \<open>[0x41, 0, 0, 0, 0]\<close> fills
  positions 1 to 3 with \<open>0x41\<close>: each byte written is the source of the next one.
\<close>

theorem run_length_example:
  "decompress_lz77 [tag, 5, 0, 0, 0x40, 0x41, 0x00, 0x00, 0x42] 0
     = Some (Inr [0x41, 0x41, 0x41, 0x41, 0x42])
   \<and> ref_length 0x00 = 3 \<and> ref_offset 0x00 0x00 = 1
   \<and> copy_loop 3 5 1 1 [0x41, 0, 0, 0, 0] = Inr (4, [0x41, 0x41, 0x41, 0x41, 0])"
proof -
  have h: "header_size [tag, 5, 0, 0, 0x40, 0x41, 0x00, 0x00, 0x42] 0 = Inr 5"
    by (simp add: header_size_eq getslice_nonneg Let_def)
  have f: "flag_loop [tag, 5, 0, 0, 0x40, 0x41, 0x00, 0x00, 0x42] 5 (4, 0, replicate 5 0)
      = Some (Inr (9, 5, [0x41, 0x41, 0x41, 0x41, 0x42]))"
    by code_simp
  have r: "decompress_lz77 [tag, 5, 0, 0, 0x40, 0x41, 0x00, 0x00, 0x42] 0
     = Some (Inr [0x41, 0x41, 0x41, 0x41, 0x42])"
    by (simp add: decompress_lz77_def decompress_lz77_run_def h f)
  have c: "ref_length 0x00 = 3 \<and> ref_offset 0x00 0x00 = 1
     \<and> copy_loop 3 5 1 1 [0x41, 0, 0, 0, 0] = Inr (4, [0x41, 0x41, 0x41, 0x41, 0])"
    by code_simp
  from r c show ?thesis by blast
qed

text \<open>
  C2, as the code has it. The two bytes of a reference unit give
  \<open>length = ((b1 >> 4) & 0xF) + 3\<close>, the high nibble of \<open>b1\<close> plus 3 and so in
  \<open>[3, 18]\<close>, and \<open>distance = (((b1 & 0xF) << 8) | b2) + 1\<close>, the low nibble of \<open>b1\<close>
  times 256 plus \<open>b2\<close> plus 1 and so in \<open>[1, 4096]\<close>; the unit is the copy loop run with
  these two values. The copy writes one byte at a time at increasing positions and moves the
  cursor after each: a copy of \<open>m + n\<close> bytes is the copy of \<open>m\<close> bytes followed by the
  copy of \<open>n\<close> bytes on the buffer and cursor the first one left. It stops at the declared
  size, so it copies \<open>length\<close> bytes only when they fit and ends at
  \<open>min (d + n) sz\<close>. The byte written at \<open>k\<close> is the one at index \<open>k - distance\<close>
  as the buffer stands then: a byte this same copy wrote when that index lies between the
  starting cursor and \<open>k\<close>. With the distance at most the cursor, every byte written
  equals the byte \<open>distance\<close> positions before it in the final buffer.
\<close>

theorem reference_copy:
  "3 \<le> ref_length b1 \<and> ref_length b1 \<le> 18
   \<and> 1 \<le> ref_offset b1 b2 \<and> ref_offset b1 b2 \<le> 4096
   \<and> ref_length b1 = uint b1 div 16 + 3
   \<and> ref_offset b1 b2 = (uint b1 mod 16) * 256 + uint b2 + 1
   \<and> (d < sz \<and> uint flags AND push_bit i 1 \<noteq> 0
        \<and> getitem data s = Inr b1 \<and> getitem data (s + 1) = Inr b2
      \<longrightarrow> unit_loop data sz flags (Suc i) (s, d, out) =
            (case copy_loop (nat (ref_length b1)) sz (ref_offset b1 b2) d out of
               Inl e \<Rightarrow> Inl e
             | Inr (d', out') \<Rightarrow> unit_loop data sz flags i (s + 2, d', out')))
   \<and> copy_loop (m + n) sz off d out =
        (case copy_loop m sz off d out of
           Inl e \<Rightarrow> Inl e
         | Inr (d1, out1) \<Rightarrow> copy_loop n sz off d1 out1)
   \<and> (d \<le> sz \<and> copy_loop n sz off d out = Inr (d', out')
      \<longrightarrow> d' = min (d + n) sz \<and> length out' = length out
          \<and> (\<forall>k. k < d \<or> d' \<le> k \<longrightarrow> out' ! k = out ! k)
          \<and> (\<forall>k. d \<le> k \<and> k < d' \<longrightarrow>
                (\<exists>p. py_index (length out) (int k - off) = Some p \<and>
                     out' ! k = (if d \<le> p \<and> p < k then out' ! p else out ! p))))
   \<and> (d \<le> sz \<and> copy_loop n sz off d out = Inr (d', out') \<and> 0 < off \<and> off \<le> int d
      \<longrightarrow> (\<forall>k. d \<le> k \<and> k < d' \<longrightarrow> out' ! k = out' ! (k - nat off)))"
proof (intro conjI impI)
  show "3 \<le> ref_length b1" "ref_length b1 \<le> 18"
    using ref_length_bounds [of b1] by simp_all
  show "1 \<le> ref_offset b1 b2" "ref_offset b1 b2 \<le> 4096"
    using ref_offset_bounds [of b1 b2] by simp_all
  show "ref_length b1 = uint b1 div 16 + 3" by (rule ref_length_div)
  show "ref_offset b1 b2 = (uint b1 mod 16) * 256 + uint b2 + 1" by (rule ref_offset_arith)
  show "copy_loop (m + n) sz off d out =
        (case copy_loop m sz off d out of
           Inl e \<Rightarrow> Inl e
         | Inr (d1, out1) \<Rightarrow> copy_loop n sz off d1 out1)"
    by (rule copy_loop_append)
next
  assume "d < sz \<and> uint flags AND push_bit i 1 \<noteq> 0
        \<and> getitem data s = Inr b1 \<and> getitem data (s + 1) = Inr b2"
  then show "unit_loop data sz flags (Suc i) (s, d, out) =
            (case copy_loop (nat (ref_length b1)) sz (ref_offset b1 b2) d out of
               Inl e \<Rightarrow> Inl e
             | Inr (d', out') \<Rightarrow> unit_loop data sz flags i (s + 2, d', out'))"
    by (simp add: unit_loop_reference)
next
  assume a: "d \<le> sz \<and> copy_loop n sz off d out = Inr (d', out')"
  then have c: "copy_loop n sz off d out = Inr (d', out')" by simp
  from copy_loop_spec [OF c] a show "d' = min (d + n) sz" by auto
  from copy_loop_spec [OF c] show "length out' = length out" by blast
  from copy_loop_spec [OF c] show "\<forall>k. k < d \<or> d' \<le> k \<longrightarrow> out' ! k = out ! k" by blast
  from copy_loop_spec [OF c] show "\<forall>k. d \<le> k \<and> k < d' \<longrightarrow>
                (\<exists>p. py_index (length out) (int k - off) = Some p \<and>
                     out' ! k = (if d \<le> p \<and> p < k then out' ! p else out ! p))" by blast
next
  assume a: "d \<le> sz \<and> copy_loop n sz off d out = Inr (d', out') \<and> 0 < off \<and> off \<le> int d"
  then show "\<forall>k. d \<le> k \<and> k < d' \<longrightarrow> out' ! k = out' ! (k - nat off)"
    using copy_loop_back [of n sz off d out d' out'] by blast
qed

theorem reference_copy_witness:
  "(1::nat) < 5 \<and> uint (0x40 :: byte) AND push_bit 6 1 \<noteq> 0
   \<and> getitem [0x10, 5, 0, 0, 0x40, 0x41, 0x00, 0x00, 0x42 :: byte] 6 = Inr 0x00
   \<and> getitem [0x10, 5, 0, 0, 0x40, 0x41, 0x00, 0x00, 0x42 :: byte] (6 + 1) = Inr 0x00
   \<and> unit_loop [0x10, 5, 0, 0, 0x40, 0x41, 0x00, 0x00, 0x42] 5 0x40 (Suc 6) (6, 1, [0x41, 0, 0, 0, 0])
       = (case copy_loop (nat (ref_length 0x00)) 5 (ref_offset 0x00 0x00) 1 [0x41, 0, 0, 0, 0] of
            Inl e \<Rightarrow> Inl e
          | Inr (d', out') \<Rightarrow>
              unit_loop [0x10, 5, 0, 0, 0x40, 0x41, 0x00, 0x00, 0x42] 5 0x40 6 (6 + 2, d', out'))
   \<and> (1::nat) \<le> 5 \<and> copy_loop 3 5 1 1 [0x41, 0, 0, 0, 0] = Inr (4, [0x41, 0x41, 0x41, 0x41, 0])
   \<and> (0::int) < 1 \<and> (1::int) \<le> int 1
   \<and> (4::nat) = min (1 + 3) 5
   \<and> length [0x41, 0x41, 0x41, 0x41, 0 :: byte] = length [0x41, 0, 0, 0, 0 :: byte]
   \<and> [0x41, 0x41, 0x41, 0x41, 0 :: byte] ! 3 = [0x41, 0x41, 0x41, 0x41, 0] ! (3 - nat 1)"
proof -
  have h1: "(1::nat) < 5 \<and> uint (0x40 :: byte) AND push_bit 6 1 \<noteq> 0
     \<and> getitem [0x10, 5, 0, 0, 0x40, 0x41, 0x00, 0x00, 0x42 :: byte] 6 = Inr 0x00
     \<and> getitem [0x10, 5, 0, 0, 0x40, 0x41, 0x00, 0x00, 0x42 :: byte] (6 + 1) = Inr 0x00"
    by code_simp
  have h2: "(1::nat) \<le> 5 \<and> copy_loop 3 5 1 1 [0x41, 0, 0, 0, 0] = Inr (4, [0x41, 0x41, 0x41, 0x41, 0])"
    by code_simp
  have h3: "(0::int) < 1 \<and> (1::int) \<le> int 1" by simp
  have h4: "(1::nat) \<le> 3 \<and> (3::nat) < 4" by simp
  note t = reference_copy [where ?b1.0 = "0x00" and ?b2.0 = "0x00" and d = 1 and sz = 5
      and flags = "0x40" and i = 6 and data = "[0x10, 5, 0, 0, 0x40, 0x41, 0x00, 0x00, 0x42]"
      and s = 6 and out = "[0x41, 0, 0, 0, 0]" and n = 3 and off = 1 and d' = 4
      and out' = "[0x41, 0x41, 0x41, 0x41, 0]"]
  from t h1 have c1:
    "unit_loop [0x10, 5, 0, 0, 0x40, 0x41, 0x00, 0x00, 0x42] 5 0x40 (Suc 6) (6, 1, [0x41, 0, 0, 0, 0])
       = (case copy_loop (nat (ref_length 0x00)) 5 (ref_offset 0x00 0x00) 1 [0x41, 0, 0, 0, 0] of
            Inl e \<Rightarrow> Inl e
          | Inr (d', out') \<Rightarrow>
              unit_loop [0x10, 5, 0, 0, 0x40, 0x41, 0x00, 0x00, 0x42] 5 0x40 6 (6 + 2, d', out'))"
    by blast
  from t h2 have c2: "(4::nat) = min (1 + 3) 5
     \<and> length [0x41, 0x41, 0x41, 0x41, 0 :: byte] = length [0x41, 0, 0, 0, 0 :: byte]"
    by blast
  from t h2 h3 have "\<forall>k. 1 \<le> k \<and> k < 4 \<longrightarrow>
      [0x41, 0x41, 0x41, 0x41, 0 :: byte] ! k = [0x41, 0x41, 0x41, 0x41, 0] ! (k - nat 1)"
    by blast
  with h4 have c3: "[0x41, 0x41, 0x41, 0x41, 0 :: byte] ! 3 = [0x41, 0x41, 0x41, 0x41, 0] ! (3 - nat 1)"
    by blast
  from h1 h2 h3 c1 c2 c3 show ?thesis by blast
qed

text \<open>
  With declared size 2, the reference of length 3 met at cursor 1 copies one byte: the
  cursor ends at 2, not at 4.
\<close>

theorem reference_copy_stops_at_size:
  "ref_length 0x00 = 3 \<and> ref_offset 0x00 0x00 = 1
   \<and> copy_loop (nat (ref_length 0x00)) 2 (ref_offset 0x00 0x00) 1 [0x41, 0] = Inr (2, [0x41, 0x41])
   \<and> decompress_lz77_run [0x10, 2, 0, 0, 0x40, 0x41, 0x00, 0x00] 0
       = Some (Inr (8, 2, [0x41, 0x41]))"
  by code_simp

text \<open>
  C3, as the code has it. A reference unit whose distance exceeds the cursor (cursor 0
  included) meets no range check. With the two reference bytes read, the unit fails, with
  \<open>IndexError\<close>, when distance minus cursor exceeds the declared size; in every other
  case the copy is carried out and the decode goes on with the next bit of the flag byte.
  No call fails with \<open>ReferenceOutOfRangeError\<close>, and a read that succeeds returns the
  byte at some position of the buffer.
\<close>

theorem reference_beyond_cursor:
  "(d < sz \<and> length out = sz \<and> uint flags AND push_bit i 1 \<noteq> 0
      \<and> getitem data s = Inr b1 \<and> getitem data (s + 1) = Inr b2
      \<and> int d < ref_offset b1 b2 \<and> int sz < ref_offset b1 b2 - int d
      \<longrightarrow> unit_loop data sz flags (Suc i) (s, d, out) = Inl IndexError)
   \<and> (d < sz \<and> length out = sz \<and> uint flags AND push_bit i 1 \<noteq> 0
      \<and> getitem data s = Inr b1 \<and> getitem data (s + 1) = Inr b2
      \<and> int d < ref_offset b1 b2 \<and> ref_offset b1 b2 - int d \<le> int sz
      \<longrightarrow> (\<exists>d' out'.
            copy_loop (nat (ref_length b1)) sz (ref_offset b1 b2) d out = Inr (d', out')
            \<and> unit_loop data sz flags (Suc i) (s, d, out)
                = unit_loop data sz flags i (s + 2, d', out')))
   \<and> decompress_lz77 data src_offset \<noteq> Some (Inl ReferenceOutOfRangeError)
   \<and> (getitem out j = Inr v \<longrightarrow> (\<exists>p. p < length out \<and> v = out ! p))"
proof (intro conjI impI)
  assume a: "d < sz \<and> length out = sz \<and> uint flags AND push_bit i 1 \<noteq> 0
      \<and> getitem data s = Inr b1 \<and> getitem data (s + 1) = Inr b2
      \<and> int d < ref_offset b1 b2 \<and> int sz < ref_offset b1 b2 - int d"
  have n: "0 < nat (ref_length b1)" using ref_length_bounds [of b1] by simp
  from a have "int d - ref_offset b1 b2 < - int sz" by simp
  with a n have "copy_loop (nat (ref_length b1)) sz (ref_offset b1 b2) d out = Inl IndexError"
    by (intro copy_loop_fail) simp_all
  with a show "unit_loop data sz flags (Suc i) (s, d, out) = Inl IndexError"
    by (simp add: unit_loop_reference)
next
  assume a: "d < sz \<and> length out = sz \<and> uint flags AND push_bit i 1 \<noteq> 0
      \<and> getitem data s = Inr b1 \<and> getitem data (s + 1) = Inr b2
      \<and> int d < ref_offset b1 b2 \<and> ref_offset b1 b2 - int d \<le> int sz"
  have "0 < ref_offset b1 b2" using ref_offset_bounds [of b1 b2] by simp
  moreover from a have "- int sz \<le> int d - ref_offset b1 b2" by simp
  ultimately obtain d' out' where
    c: "copy_loop (nat (ref_length b1)) sz (ref_offset b1 b2) d out = Inr (d', out')"
    using a copy_loop_ok [of out sz "ref_offset b1 b2" d "nat (ref_length b1)"] by blast
  with a have "unit_loop data sz flags (Suc i) (s, d, out)
      = unit_loop data sz flags i (s + 2, d', out')"
    by (simp add: unit_loop_reference)
  with c show "\<exists>d' out'.
      copy_loop (nat (ref_length b1)) sz (ref_offset b1 b2) d out = Inr (d', out')
      \<and> unit_loop data sz flags (Suc i) (s, d, out) = unit_loop data sz flags i (s + 2, d', out')"
    by blast
next
  show "decompress_lz77 data src_offset \<noteq> Some (Inl ReferenceOutOfRangeError)"
    using run_Inl [of data src_offset ReferenceOutOfRangeError]
    by (auto simp: decompress_lz77_Inl)
next
  assume "getitem out j = Inr v"
  then show "\<exists>p. p < length out \<and> v = out ! p"
    by (auto dest!: getitem_Inr dest: py_index_bound)
qed

theorem reference_beyond_cursor_witness:
  "(0::nat) < 3 \<and> length [0, 0, 0 :: byte] = 3 \<and> uint (0x80 :: byte) AND push_bit 7 1 \<noteq> 0
   \<and> getitem [0x10, 3, 0, 0, 0x80, 0x00, 0x03 :: byte] 5 = Inr 0x00
   \<and> getitem [0x10, 3, 0, 0, 0x80, 0x00, 0x03 :: byte] (5 + 1) = Inr 0x03
   \<and> int 0 < ref_offset 0x00 0x03 \<and> int 3 < ref_offset 0x00 0x03 - int 0
   \<and> unit_loop [0x10, 3, 0, 0, 0x80, 0x00, 0x03] 3 0x80 (Suc 7) (5, 0, [0, 0, 0]) = Inl IndexError
   \<and> getitem [0x10, 3, 0, 0, 0x80, 0x00, 0x00 :: byte] 5 = Inr 0x00
   \<and> getitem [0x10, 3, 0, 0, 0x80, 0x00, 0x00 :: byte] (5 + 1) = Inr 0x00
   \<and> int 0 < ref_offset 0x00 0x00 \<and> ref_offset 0x00 0x00 - int 0 \<le> int 3
   \<and> (\<exists>d' out'.
        copy_loop (nat (ref_length 0x00)) 3 (ref_offset 0x00 0x00) 0 [0, 0, 0] = Inr (d', out')
        \<and> unit_loop [0x10, 3, 0, 0, 0x80, 0x00, 0x00] 3 0x80 (Suc 7) (5, 0, [0, 0, 0])
            = unit_loop [0x10, 3, 0, 0, 0x80, 0x00, 0x00] 3 0x80 7 (5 + 2, d', out'))
   \<and> getitem [0, 0, 0 :: byte] (- 1) = Inr 0
   \<and> (\<exists>p. p < length [0, 0, 0 :: byte] \<and> (0 :: byte) = [0, 0, 0] ! p)"
proof -
  have h3: "getitem [0, 0, 0 :: byte] (- 1) = Inr 0" by code_simp
  have h1: "(0::nat) < 3 \<and> length [0, 0, 0 :: byte] = 3 \<and> uint (0x80 :: byte) AND push_bit 7 1 \<noteq> 0
      \<and> getitem [0x10, 3, 0, 0, 0x80, 0x00, 0x03 :: byte] 5 = Inr 0x00
      \<and> getitem [0x10, 3, 0, 0, 0x80, 0x00, 0x03 :: byte] (5 + 1) = Inr 0x03
      \<and> int 0 < ref_offset 0x00 0x03 \<and> int 3 < ref_offset 0x00 0x03 - int 0"
    by code_simp
  have h2: "(0::nat) < 3 \<and> length [0, 0, 0 :: byte] = 3 \<and> uint (0x80 :: byte) AND push_bit 7 1 \<noteq> 0
      \<and> getitem [0x10, 3, 0, 0, 0x80, 0x00, 0x00 :: byte] 5 = Inr 0x00
      \<and> getitem [0x10, 3, 0, 0, 0x80, 0x00, 0x00 :: byte] (5 + 1) = Inr 0x00
      \<and> int 0 < ref_offset 0x00 0x00 \<and> ref_offset 0x00 0x00 - int 0 \<le> int 3"
    by code_simp
  from h1 reference_beyond_cursor [where d = 0 and sz = 3 and out = "[0, 0, 0]" and flags = "0x80"
      and i = 7 and data = "[0x10, 3, 0, 0, 0x80, 0x00, 0x03]" and s = 5 and ?b1.0 = "0x00"
      and ?b2.0 = "0x03"]
  have c1: "unit_loop [0x10, 3, 0, 0, 0x80, 0x00, 0x03] 3 0x80 (Suc 7) (5, 0, [0, 0, 0])
      = Inl IndexError"
    by blast
  from h2 reference_beyond_cursor [where d = 0 and sz = 3 and out = "[0, 0, 0]" and flags = "0x80"
      and i = 7 and data = "[0x10, 3, 0, 0, 0x80, 0x00, 0x00]" and s = 5 and ?b1.0 = "0x00"
      and ?b2.0 = "0x00"]
  have c2: "\<exists>d' out'.
        copy_loop (nat (ref_length 0x00)) 3 (ref_offset 0x00 0x00) 0 [0, 0, 0] = Inr (d', out')
        \<and> unit_loop [0x10, 3, 0, 0, 0x80, 0x00, 0x00] 3 0x80 (Suc 7) (5, 0, [0, 0, 0])
            = unit_loop [0x10, 3, 0, 0, 0x80, 0x00, 0x00] 3 0x80 7 (5 + 2, d', out')"
    by blast
  from h3 reference_beyond_cursor [where out = "[0, 0, 0]" and j = "- 1" and v = 0]
  have c3: "\<exists>p. p < length [0, 0, 0 :: byte] \<and> (0 :: byte) = [0, 0, 0] ! p"
    by blast
  from h1 h2 h3 c1 c2 c3 show ?thesis by blast
qed

text \<open>
  A reference unit met at cursor 0 (distance 1, declared size 3) raises nothing: the call
  returns three zero bytes.
\<close>

theorem reference_at_cursor_zero_returns:
  "decompress_lz77 [0x10, 3, 0, 0, 0x80, 0x00, 0x00] 0 = Some (Inr [0, 0, 0])"
  by code_simp

text \<open>
  C4. For a copy whose distance \<open>off\<close> exceeds the cursor \<open>d\<close> there is no range check.
  When \<open>off - d\<close> is at most the declared size, the read \<open>out[d - off]\<close> returns the byte
  at position \<open>sz + d - off\<close> of the buffer, and the copy returns normally. When moreover
  the size is at least the distance, that position is at or beyond the cursor; the buffer is
  zero from the cursor on (a property the bit loop keeps, the buffer being zero-filled at
  the start and written forward only), so the byte read is 0. The copy fails, always with
  \<open>IndexError\<close>, exactly when \<open>off - d\<close> exceeds the declared size.
\<close>

theorem negative_index_read:
  "(length out = sz \<and> d < sz \<and> int d < off \<and> off - int d \<le> int sz
      \<longrightarrow> getitem out (int d - off) = Inr (out ! nat (int sz + int d - off))
          \<and> nat (int sz + int d - off) < sz
          \<and> (\<exists>d' out'. copy_loop n sz off d out = Inr (d', out')))
   \<and> (length out = sz \<and> d < sz \<and> int d < off \<and> off \<le> int sz
        \<and> drop d out = replicate (sz - d) 0
      \<longrightarrow> d \<le> nat (int sz + int d - off) \<and> getitem out (int d - off) = Inr 0)
   \<and> (length out = sz \<and> d < sz \<and> int d < off \<and> 0 < n
      \<longrightarrow> (copy_loop n sz off d out = Inl IndexError) = (int sz < off - int d))
   \<and> (copy_loop n sz off d out = Inl e \<longrightarrow> e = IndexError)
   \<and> (unit_loop data sz flags k (s, d, out) = Inr (s', d', out') \<and> length out = sz
        \<and> drop d out = replicate (sz - d) 0
      \<longrightarrow> drop d' out' = replicate (sz - d') 0)"
proof (intro conjI impI)
  assume a: "length out = sz \<and> d < sz \<and> int d < off \<and> off - int d \<le> int sz"
  then show "getitem out (int d - off) = Inr (out ! nat (int sz + int d - off))"
    by (simp add: getitem_wrap)
  from a show "nat (int sz + int d - off) < sz" by auto
  from a have "0 < off" "- int sz \<le> int d - off" by simp_all
  with a show "\<exists>d' out'. copy_loop n sz off d out = Inr (d', out')"
    by (intro copy_loop_ok) simp_all
next
  assume a: "length out = sz \<and> d < sz \<and> int d < off \<and> off \<le> int sz
        \<and> drop d out = replicate (sz - d) 0"
  then show p: "d \<le> nat (int sz + int d - off)" by auto
  from a have z: "\<forall>p. d \<le> p \<and> p < sz \<longrightarrow> out ! p = 0"
    using zero_tail_iff [of out sz d] by blast
  from a have "nat (int sz + int d - off) < sz" by auto
  with p z have "out ! nat (int sz + int d - off) = 0" by blast
  moreover from a have "getitem out (int d - off) = Inr (out ! nat (int sz + int d - off))"
    by (intro getitem_wrap) simp_all
  ultimately show "getitem out (int d - off) = Inr 0" by simp
next
  assume a: "length out = sz \<and> d < sz \<and> int d < off \<and> 0 < n"
  then have "0 < off" by simp
  with a show "(copy_loop n sz off d out = Inl IndexError) = (int sz < off - int d)"
    by (intro copy_loop_fail_iff) simp_all
next
  assume "copy_loop n sz off d out = Inl e"
  then show "e = IndexError" by (rule copy_loop_Inl)
next
  assume "unit_loop data sz flags k (s, d, out) = Inr (s', d', out') \<and> length out = sz
        \<and> drop d out = replicate (sz - d) 0"
  then show "drop d' out' = replicate (sz - d') 0"
    using unit_loop_zero_tail [of data sz flags k s d out s' d' out'] by blast
qed

theorem negative_index_read_witness:
  "length [0x41, 0, 0, 0, 0, 0 :: byte] = 6 \<and> (1::nat) < 6 \<and> int 1 < 2 \<and> 2 - int 1 \<le> int 6
   \<and> (2::int) \<le> int 6 \<and> drop 1 [0x41, 0, 0, 0, 0, 0 :: byte] = replicate (6 - 1) 0
   \<and> getitem [0x41, 0, 0, 0, 0, 0 :: byte] (int 1 - 2)
       = Inr ([0x41, 0, 0, 0, 0, 0] ! nat (int 6 + int 1 - 2))
   \<and> nat (int 6 + int 1 - 2) < 6 \<and> 1 \<le> nat (int 6 + int 1 - 2)
   \<and> getitem [0x41, 0, 0, 0, 0, 0 :: byte] (int 1 - 2) = Inr 0
   \<and> copy_loop 3 6 2 1 [0x41, 0, 0, 0, 0, 0] = Inr (4, [0x41, 0, 0x41, 0, 0, 0])
   \<and> (0::nat) < 3 \<and> int 1 < 8 \<and> int 6 < 8 - int 1
   \<and> copy_loop 3 6 8 1 [0x41, 0, 0, 0, 0, 0] = Inl IndexError
   \<and> unit_loop [0x10, 6, 0, 0, 0x01, 0x41, 0x00, 0x01] 6 0x01 1 (6, 1, [0x41, 0, 0, 0, 0, 0])
       = Inr (8, 4, [0x41, 0, 0x41, 0, 0, 0])
   \<and> drop 4 [0x41, 0, 0x41, 0, 0, 0 :: byte] = replicate (6 - 4) 0
   \<and> decompress_lz77 [0x10, 4, 0, 0, 0x40, 0x41, 0x00, 0x01] 0 = Some (Inr [0x41, 0, 0x41, 0])"
proof -
  have h1: "length [0x41, 0, 0, 0, 0, 0 :: byte] = 6 \<and> (1::nat) < 6 \<and> int 1 < 2 \<and> 2 - int 1 \<le> int 6"
    by simp
  have h2: "length [0x41, 0, 0, 0, 0, 0 :: byte] = 6 \<and> (1::nat) < 6 \<and> int 1 < 2 \<and> (2::int) \<le> int 6
      \<and> drop 1 [0x41, 0, 0, 0, 0, 0 :: byte] = replicate (6 - 1) 0"
    by code_simp
  have h3: "length [0x41, 0, 0, 0, 0, 0 :: byte] = 6 \<and> (1::nat) < 6 \<and> int 1 < 8 \<and> (0::nat) < 3"
    by simp
  have h4: "int 6 < 8 - int 1" by simp
  have h5: "unit_loop [0x10, 6, 0, 0, 0x01, 0x41, 0x00, 0x01] 6 0x01 1 (6, 1, [0x41, 0, 0, 0, 0, 0])
       = Inr (8, 4, [0x41, 0, 0x41, 0, 0, 0])"
    by code_simp
  have h6: "copy_loop 3 6 2 1 [0x41, 0, 0, 0, 0, 0] = Inr (4, [0x41, 0, 0x41, 0, 0, 0])"
    by code_simp
  have h7: "decompress_lz77 [0x10, 4, 0, 0, 0x40, 0x41, 0x00, 0x01] 0 = Some (Inr [0x41, 0, 0x41, 0])"
    by code_simp
  note t1 = negative_index_read [where out = "[0x41, 0, 0, 0, 0, 0]" and sz = 6 and d = 1
      and off = 2 and n = 3 and data = "[0x10, 6, 0, 0, 0x01, 0x41, 0x00, 0x01]"
      and flags = "0x01" and k = 1 and s = 6 and s' = 8 and d' = 4
      and out' = "[0x41, 0, 0x41, 0, 0, 0]"]
  note t2 = negative_index_read [where out = "[0x41, 0, 0, 0, 0, 0]" and sz = 6 and d = 1
      and off = 8 and n = 3]
  from t1 h1 have c1: "getitem [0x41, 0, 0, 0, 0, 0 :: byte] (int 1 - 2)
       = Inr ([0x41, 0, 0, 0, 0, 0] ! nat (int 6 + int 1 - 2))
     \<and> nat (int 6 + int 1 - 2) < 6"
    by blast
  from t1 h2 have c2: "1 \<le> nat (int 6 + int 1 - 2)
     \<and> getitem [0x41, 0, 0, 0, 0, 0 :: byte] (int 1 - 2) = Inr 0"
    by blast
  from t2 h3 h4 have c3: "copy_loop 3 6 8 1 [0x41, 0, 0, 0, 0, 0] = Inl IndexError"
    by blast
  from t1 h1 h2 h5 have c4: "drop 4 [0x41, 0, 0x41, 0, 0, 0 :: byte] = replicate (6 - 4) 0"
    by blast
  from h1 h2 h3 h4 h5 h6 h7 c1 c2 c3 c4 show ?thesis by blast
qed

text \<open>
  C5, as the code has it. With the cursor below the declared size, a source that ends
  before the flag byte, before a literal byte, or before the second byte of a reference
  makes the read raise \<open>IndexError\<close>: the failure of the whole call, since nothing
  catches it. No call fails with \<open>TruncatedStreamError\<close>. For a non-negative offset a
  successful call ends with the source position inside the source, and the same source
  cut anywhere after the header and before that position fails with \<open>IndexError\<close>.
\<close>

theorem truncated_stream_raises_IndexError:
  "(d < sz \<and> int (length data) \<le> s
      \<longrightarrow> flag_loop data sz (s, d, out) = Some (Inl IndexError))
   \<and> (d < sz \<and> uint flags AND push_bit i 1 = 0 \<and> int (length data) \<le> s
      \<longrightarrow> unit_loop data sz flags (Suc i) (s, d, out) = Inl IndexError)
   \<and> (d < sz \<and> uint flags AND push_bit i 1 \<noteq> 0 \<and> int (length data) \<le> s + 1
      \<longrightarrow> unit_loop data sz flags (Suc i) (s, d, out) = Inl IndexError)
   \<and> (0 \<le> src_offset \<and> decompress_lz77_run data src_offset = Some (Inr (s', d', out'))
      \<longrightarrow> s' \<le> int (length data))
   \<and> (0 \<le> src_offset \<and> decompress_lz77_run data src_offset = Some (Inr (s', d', out'))
        \<and> src_offset + 4 \<le> int n \<and> int n < s'
      \<longrightarrow> decompress_lz77 (take n data) src_offset = Some (Inl IndexError))
   \<and> decompress_lz77 data src_offset \<noteq> Some (Inl TruncatedStreamError)"
proof (intro conjI impI)
  assume "d < sz \<and> int (length data) \<le> s"
  then show "flag_loop data sz (s, d, out) = Some (Inl IndexError)"
    by (subst flag_loop.simps) (simp add: getitem_exhausted)
next
  assume "d < sz \<and> uint flags AND push_bit i 1 = 0 \<and> int (length data) \<le> s"
  then show "unit_loop data sz flags (Suc i) (s, d, out) = Inl IndexError"
    by (simp add: getitem_exhausted)
next
  assume a: "d < sz \<and> uint flags AND push_bit i 1 \<noteq> 0 \<and> int (length data) \<le> s + 1"
  with getitem_pair_exhausted [of data s]
  show "unit_loop data sz flags (Suc i) (s, d, out) = Inl IndexError"
    by auto
next
  assume "0 \<le> src_offset \<and> decompress_lz77_run data src_offset = Some (Inr (s', d', out'))"
  then show "s' \<le> int (length data)"
    using run_consumed [of data src_offset s' d' out'] by blast
next
  assume a: "0 \<le> src_offset \<and> decompress_lz77_run data src_offset = Some (Inr (s', d', out'))
        \<and> src_offset + 4 \<le> int n \<and> int n < s'"
  then have "decompress_lz77_run (take n data) src_offset = Some (Inl IndexError)"
    using run_take [of data src_offset s' d' out' n] by simp
  then show "decompress_lz77 (take n data) src_offset = Some (Inl IndexError)"
    by (simp add: decompress_lz77_Inl)
next
  show "decompress_lz77 data src_offset \<noteq> Some (Inl TruncatedStreamError)"
    using run_Inl [of data src_offset TruncatedStreamError]
    by (auto simp: decompress_lz77_Inl)
qed

theorem truncated_stream_raises_IndexError_witness:
  "(0::nat) < 3 \<and> int (length [0x10, 3, 0, 0 :: byte]) \<le> 4
   \<and> flag_loop [0x10, 3, 0, 0] 3 (4, 0, [0, 0, 0]) = Some (Inl IndexError)
   \<and> uint (0x00 :: byte) AND push_bit 7 1 = 0 \<and> int (length [0x10, 3, 0, 0, 0x00 :: byte]) \<le> 5
   \<and> unit_loop [0x10, 3, 0, 0, 0x00] 3 0x00 (Suc 7) (5, 0, [0, 0, 0]) = Inl IndexError
   \<and> uint (0x80 :: byte) AND push_bit 7 1 \<noteq> 0
   \<and> int (length [0x10, 3, 0, 0, 0x80, 0x00 :: byte]) \<le> 5 + 1
   \<and> unit_loop [0x10, 3, 0, 0, 0x80, 0x00] 3 0x80 (Suc 7) (5, 0, [0, 0, 0]) = Inl IndexError
   \<and> (0::int) \<le> 0
   \<and> decompress_lz77_run [0x10, 5, 0, 0, 0x40, 0x41, 0x00, 0x00, 0x42, 0xFF] 0
       = Some (Inr (9, 5, [0x41, 0x41, 0x41, 0x41, 0x42]))
   \<and> (9::int) \<le> int (length [0x10, 5, 0, 0, 0x40, 0x41, 0x00, 0x00, 0x42, 0xFF :: byte])
   \<and> (0::int) + 4 \<le> int 8 \<and> int 8 < 9
   \<and> decompress_lz77 (take 8 [0x10, 5, 0, 0, 0x40, 0x41, 0x00, 0x00, 0x42, 0xFF]) 0
       = Some (Inl IndexError)"
proof -
  have h1: "(0::nat) < 3 \<and> int (length [0x10, 3, 0, 0 :: byte]) \<le> 4" by simp
  have h2: "(0::nat) < 3 \<and> uint (0x00 :: byte) AND push_bit 7 1 = 0
      \<and> int (length [0x10, 3, 0, 0, 0x00 :: byte]) \<le> 5" by simp
  have h3: "(0::nat) < 3 \<and> uint (0x80 :: byte) AND push_bit 7 1 \<noteq> 0
      \<and> int (length [0x10, 3, 0, 0, 0x80, 0x00 :: byte]) \<le> 5 + 1" by code_simp
  have h4: "(0::int) \<le> 0
      \<and> decompress_lz77_run [0x10, 5, 0, 0, 0x40, 0x41, 0x00, 0x00, 0x42, 0xFF] 0
          = Some (Inr (9, 5, [0x41, 0x41, 0x41, 0x41, 0x42]))" by code_simp
  have h5: "(0::int) + 4 \<le> int 8 \<and> int 8 < 9" by simp
  from h1 truncated_stream_raises_IndexError [where d = 0 and sz = 3
      and data = "[0x10, 3, 0, 0]" and s = 4 and out = "[0, 0, 0]"]
  have c1: "flag_loop [0x10, 3, 0, 0] 3 (4, 0, [0, 0, 0]) = Some (Inl IndexError)"
    by blast
  from h2 truncated_stream_raises_IndexError [where d = 0 and sz = 3
      and data = "[0x10, 3, 0, 0, 0x00]" and s = 5 and out = "[0, 0, 0]" and flags = "0x00"
      and i = 7]
  have c2: "unit_loop [0x10, 3, 0, 0, 0x00] 3 0x00 (Suc 7) (5, 0, [0, 0, 0]) = Inl IndexError"
    by blast
  from h3 truncated_stream_raises_IndexError [where d = 0 and sz = 3
      and data = "[0x10, 3, 0, 0, 0x80, 0x00]" and s = 5 and out = "[0, 0, 0]" and flags = "0x80"
      and i = 7]
  have c3: "unit_loop [0x10, 3, 0, 0, 0x80, 0x00] 3 0x80 (Suc 7) (5, 0, [0, 0, 0]) = Inl IndexError"
    by blast
  note t = truncated_stream_raises_IndexError [where src_offset = 0
      and data = "[0x10, 5, 0, 0, 0x40, 0x41, 0x00, 0x00, 0x42, 0xFF]" and s' = 9 and d' = 5
      and out' = "[0x41, 0x41, 0x41, 0x41, 0x42]" and n = 8]
  from h4 t have c4: "(9::int) \<le> int (length [0x10, 5, 0, 0, 0x40, 0x41, 0x00, 0x00, 0x42, 0xFF :: byte])"
    by blast
  from h4 h5 t have c5: "decompress_lz77 (take 8 [0x10, 5, 0, 0, 0x40, 0x41, 0x00, 0x00, 0x42, 0xFF]) 0
       = Some (Inl IndexError)"
    by blast
  from h1 h2 h3 h4 h5 c1 c2 c3 c4 c5 show ?thesis by blast
qed

text \<open>
  A source that ends one byte after a flag byte announcing a reference, and one that ends
  right after the header: both calls fail with \<open>IndexError\<close>, the built-in exception of
  the indexing, not with \<open>TruncatedStreamError\<close>.
\<close>

theorem truncated_reference_IndexError:
  "decompress_lz77 [0x10, 3, 0, 0, 0x80, 0x00] 0 = Some (Inl IndexError)
   \<and> decompress_lz77 [0x10, 3, 0, 0] 0 = Some (Inl IndexError)"
  by code_simp

text \<open>
  C6, as the code has it. The header is the slice \<open>data[src_offset : src_offset + 4]\<close>
  read as a little-endian unsigned integer, and the declared size is its upper 24 bits:
  byte 1 plus 256 times byte 2 plus 65536 times byte 3 of the slice. The low byte is not
  looked at: at a non-negative offset, putting any other value in its place leaves the
  parse and the result of the whole call unchanged, and no call fails with
  \<open>FormatError\<close>. When the slice has fewer than
  4 bytes (at a non-negative offset: fewer than 4 bytes remain) the failure is
  \<open>struct.error\<close>.
\<close>

theorem header_parse:
  "header_size data src_offset =
     (if length (getslice data src_offset (src_offset + 4)) = 4
      then Inr (unat (getslice data src_offset (src_offset + 4) ! 1)
                + 256 * unat (getslice data src_offset (src_offset + 4) ! 2)
                + 65536 * unat (getslice data src_offset (src_offset + 4) ! 3))
      else Inl StructError)
   \<and> (0 \<le> src_offset \<longrightarrow>
        getslice data src_offset (src_offset + 4) = take 4 (drop (nat src_offset) data)
        \<and> header_size (data[nat src_offset := tag]) src_offset = header_size data src_offset
        \<and> decompress_lz77 (data[nat src_offset := tag]) src_offset
            = decompress_lz77 data src_offset)
   \<and> (0 \<le> src_offset \<and> int (length data) < src_offset + 4 \<longrightarrow>
        decompress_lz77 data src_offset = Some (Inl StructError))
   \<and> decompress_lz77 data src_offset \<noteq> Some (Inl FormatError)"
proof (intro conjI impI)
  show "header_size data src_offset =
     (if length (getslice data src_offset (src_offset + 4)) = 4
      then Inr (unat (getslice data src_offset (src_offset + 4) ! 1)
                + 256 * unat (getslice data src_offset (src_offset + 4) ! 2)
                + 65536 * unat (getslice data src_offset (src_offset + 4) ! 3))
      else Inl StructError)"
    by (simp add: header_size_eq Let_def)
next
  assume "0 \<le> src_offset"
  then show "getslice data src_offset (src_offset + 4) = take 4 (drop (nat src_offset) data)"
    by (simp add: getslice_nonneg)
next
  assume "0 \<le> src_offset"
  then show "header_size (data[nat src_offset := tag]) src_offset = header_size data src_offset"
    by (simp add: header_size_eq Let_def getslice_set_tag)
next
  assume "0 \<le> src_offset"
  then show "decompress_lz77 (data[nat src_offset := tag]) src_offset
      = decompress_lz77 data src_offset"
    by (rule decompress_lz77_tag_free)
next
  assume a: "0 \<le> src_offset \<and> int (length data) < src_offset + 4"
  then have "length (getslice data src_offset (src_offset + 4)) \<noteq> 4"
    by (auto simp: getslice_nonneg)
  then have "header_size data src_offset = Inl StructError"
    by (simp add: header_size_eq Let_def)
  then show "decompress_lz77 data src_offset = Some (Inl StructError)"
    by (simp add: decompress_lz77_def decompress_lz77_run_def)
next
  show "decompress_lz77 data src_offset \<noteq> Some (Inl FormatError)"
    using run_Inl [of data src_offset FormatError] by (auto simp: decompress_lz77_Inl)
qed

theorem header_parse_witness:
  "(0::int) \<le> 2
   \<and> getslice [0xAA, 0xBB, 0x10, 0x03, 0x00, 0x00, 0x00 :: byte] 2 (2 + 4)
       = take 4 (drop (nat 2) [0xAA, 0xBB, 0x10, 0x03, 0x00, 0x00, 0x00])
   \<and> header_size [0xAA, 0xBB, 0x10, 0x03, 0x00, 0x00, 0x00] 2 = Inr 3
   \<and> header_size ([0xAA, 0xBB, 0x10, 0x03, 0x00, 0x00, 0x00][nat 2 := 0x77]) 2
       = header_size [0xAA, 0xBB, 0x10, 0x03, 0x00, 0x00, 0x00] 2
   \<and> decompress_lz77 ([0xAA, 0xBB, 0x10, 0x03, 0x00, 0x00, 0x00][nat 2 := 0x77]) 2
       = decompress_lz77 [0xAA, 0xBB, 0x10, 0x03, 0x00, 0x00, 0x00] 2
   \<and> (0::int) \<le> 2 \<and> int (length [0xAA, 0xBB, 0x10, 0x03, 0x00 :: byte]) < 2 + 4
   \<and> decompress_lz77 [0xAA, 0xBB, 0x10, 0x03, 0x00] 2 = Some (Inl StructError)"
proof -
  have h0: "(0::int) \<le> 2" by simp
  have h: "header_size [0xAA, 0xBB, 0x10, 0x03, 0x00, 0x00, 0x00] 2 = Inr 3"
    by code_simp
  have l: "(0::int) \<le> 2 \<and> int (length [0xAA, 0xBB, 0x10, 0x03, 0x00 :: byte]) < 2 + 4"
    by simp
  from h0 header_parse [where data = "[0xAA, 0xBB, 0x10, 0x03, 0x00, 0x00, 0x00]"
      and src_offset = 2 and tag = "0x77"]
  have c1: "getslice [0xAA, 0xBB, 0x10, 0x03, 0x00, 0x00, 0x00 :: byte] 2 (2 + 4)
       = take 4 (drop (nat 2) [0xAA, 0xBB, 0x10, 0x03, 0x00, 0x00, 0x00])
     \<and> header_size ([0xAA, 0xBB, 0x10, 0x03, 0x00, 0x00, 0x00][nat 2 := 0x77]) 2
       = header_size [0xAA, 0xBB, 0x10, 0x03, 0x00, 0x00, 0x00] 2
     \<and> decompress_lz77 ([0xAA, 0xBB, 0x10, 0x03, 0x00, 0x00, 0x00][nat 2 := 0x77]) 2
       = decompress_lz77 [0xAA, 0xBB, 0x10, 0x03, 0x00, 0x00, 0x00] 2"
    by blast
  from l header_parse [where data = "[0xAA, 0xBB, 0x10, 0x03, 0x00]" and src_offset = 2]
  have c2: "decompress_lz77 [0xAA, 0xBB, 0x10, 0x03, 0x00] 2 = Some (Inl StructError)"
    by blast
  from h0 h l c1 c2 show ?thesis by blast
qed

text \<open>
  Two headers that differ in the tag byte only decode alike, so at least one tag that is
  not the expected one is accepted; a header of three bytes fails with \<open>struct.error\<close>,
  not \<open>FormatError\<close>.
\<close>

theorem header_tag_unchecked:
  "decompress_lz77 [0x10, 5, 0, 0, 0x40, 0x41, 0x00, 0x00, 0x42] 0
     = Some (Inr [0x41, 0x41, 0x41, 0x41, 0x42])
   \<and> decompress_lz77 [0x24, 5, 0, 0, 0x40, 0x41, 0x00, 0x00, 0x42] 0
     = Some (Inr [0x41, 0x41, 0x41, 0x41, 0x42])
   \<and> decompress_lz77 [0x10, 5, 0] 0 = Some (Inl StructError)"
  by code_simp

text \<open>
  C7, as the code has it. The function takes the data and the offset, and no maximum:
  whatever size the header declares (the 24-bit field keeps it below \<open>2 ^ 24\<close>), the
  zero-filled buffer of that size is allocated and the loop entered, and no call fails with
  \<open>SizeLimitExceededError\<close>. Every size below \<open>2 ^ 24\<close> is declared by some input that
  decodes in full.
\<close>

theorem no_size_limit:
  "(header_size data src_offset = Inr sz
      \<longrightarrow> sz < 2 ^ 24
          \<and> decompress_lz77_run data src_offset
              = flag_loop data sz (src_offset + 4, 0, replicate sz 0))
   \<and> decompress_lz77 data src_offset \<noteq> Some (Inl SizeLimitExceededError)
   \<and> (n < 2 ^ 24
      \<longrightarrow> (\<exists>input. header_size input 0 = Inr n
            \<and> decompress_lz77 input 0 = Some (Inr (replicate n 0))))"
proof (intro conjI impI)
  assume h: "header_size data src_offset = Inr sz"
  then show "sz < 2 ^ 24" by (rule header_size_bound)
  from h show "decompress_lz77_run data src_offset
      = flag_loop data sz (src_offset + 4, 0, replicate sz 0)"
    by (simp add: decompress_lz77_run_def)
next
  show "decompress_lz77 data src_offset \<noteq> Some (Inl SizeLimitExceededError)"
    using run_Inl [of data src_offset SizeLimitExceededError]
    by (auto simp: decompress_lz77_Inl)
next
  assume "n < 2 ^ 24"
  then show "\<exists>input. header_size input 0 = Inr n
      \<and> decompress_lz77 input 0 = Some (Inr (replicate n 0))"
    by (rule every_size_decodes)
qed

theorem no_size_limit_witness:
  "header_size [0x10, 5, 0, 0, 0x40, 0x41, 0x00, 0x00, 0x42] 0 = Inr 5
   \<and> (5::nat) < 2 ^ 24
   \<and> decompress_lz77_run [0x10, 5, 0, 0, 0x40, 0x41, 0x00, 0x00, 0x42] 0
       = flag_loop [0x10, 5, 0, 0, 0x40, 0x41, 0x00, 0x00, 0x42] 5 (0 + 4, 0, replicate 5 0)
   \<and> (16777215::nat) < 2 ^ 24
   \<and> (\<exists>input. header_size input 0 = Inr 16777215
        \<and> decompress_lz77 input 0 = Some (Inr (replicate 16777215 0)))"
proof -
  have h: "header_size [0x10, 5, 0, 0, 0x40, 0x41, 0x00, 0x00, 0x42] 0 = Inr 5"
    by code_simp
  have l: "(16777215::nat) < 2 ^ 24" by simp
  note t = no_size_limit [where data = "[0x10, 5, 0, 0, 0x40, 0x41, 0x00, 0x00, 0x42]"
      and src_offset = 0 and sz = 5 and n = 16777215]
  from t h have c1: "(5::nat) < 2 ^ 24
     \<and> decompress_lz77_run [0x10, 5, 0, 0, 0x40, 0x41, 0x00, 0x00, 0x42] 0
         = flag_loop [0x10, 5, 0, 0, 0x40, 0x41, 0x00, 0x00, 0x42] 5 (0 + 4, 0, replicate 5 0)"
    by blast
  from t l have c2: "\<exists>input. header_size input 0 = Inr 16777215
        \<and> decompress_lz77 input 0 = Some (Inr (replicate 16777215 0))"
    by blast
  from h l c1 c2 show ?thesis by blast
qed

text \<open>
  A header that declares 5 bytes is decoded in full, though 5 exceeds a maximum of 4.
\<close>

theorem size_above_maximum_decoded:
  "header_size [0x10, 5, 0, 0, 0x40, 0x41, 0x00, 0x00, 0x42] 0 = Inr 5
   \<and> (4::nat) < 5
   \<and> decompress_lz77 [0x10, 5, 0, 0, 0x40, 0x41, 0x00, 0x00, 0x42] 0
       = Some (Inr [0x41, 0x41, 0x41, 0x41, 0x42])"
  by code_simp

text \<open>
  C8. The cursor never passes the declared size. A copy started at or below the declared
  size ends at \<open>min (d + n) sz\<close>: a reference that would overrun stops exactly there.
  The bits of a flag byte leave the cursor at or below the size, and with the cursor at
  the size both the bit loop (whatever bits remain unread) and the flag-byte loop return
  the state as it is. The flag-byte loop ends with the cursor equal to the size, so a
  successful call returns a buffer whose length is the size the header declares.
\<close>

theorem cursor_within_declared_size:
  "(d \<le> sz \<and> copy_loop n sz off d out = Inr (d1, out1) \<longrightarrow> d1 = min (d + n) sz)
   \<and> (d \<le> sz \<and> unit_loop data sz flags k (s, d, out) = Inr (s2, d2, out2) \<longrightarrow> d2 \<le> sz)
   \<and> unit_loop data sz flags k (s, sz, out) = Inr (s, sz, out)
   \<and> flag_loop data sz (s, sz, out) = Some (Inr (s, sz, out))
   \<and> (d \<le> sz \<and> flag_loop data sz (s, d, out) = Some (Inr (s3, d3, out3)) \<longrightarrow> d3 = sz)
   \<and> (decompress_lz77 data src_offset = Some (Inr res) \<longrightarrow>
        header_size data src_offset = Inr (length res))"
proof (intro conjI impI)
  assume "d \<le> sz \<and> copy_loop n sz off d out = Inr (d1, out1)"
  then show "d1 = min (d + n) sz"
    using copy_loop_spec [of n sz off d out d1 out1] by auto
next
  assume "d \<le> sz \<and> unit_loop data sz flags k (s, d, out) = Inr (s2, d2, out2)"
  then show "d2 \<le> sz"
    using unit_loop_spec [of data sz flags k s d out s2 d2 out2] by auto
next
  show "unit_loop data sz flags k (s, sz, out) = Inr (s, sz, out)"
    by (rule unit_loop_done) simp
next
  show "flag_loop data sz (s, sz, out) = Some (Inr (s, sz, out))"
    by (rule flag_loop_done) simp
next
  assume "d \<le> sz \<and> flag_loop data sz (s, d, out) = Some (Inr (s3, d3, out3))"
  then show "d3 = sz"
    using flag_loop_total [of data sz s d out] by auto
next
  assume "decompress_lz77 data src_offset = Some (Inr res)"
  then show "header_size data src_offset = Inr (length res)"
    using run_success by (auto simp: decompress_lz77_Inr)
qed

theorem cursor_within_declared_size_witness:
  "(1::nat) \<le> 2 \<and> copy_loop 3 2 1 1 [0x41, 0] = Inr (2, [0x41, 0x41]) \<and> (2::nat) = min (1 + 3) 2
   \<and> unit_loop [0x10, 2, 0, 0, 0x40, 0x41, 0, 0] 2 0x40 7 (6, 1, [0x41, 0]) = Inr (8, 2, [0x41, 0x41])
   \<and> unit_loop [0x10, 2, 0, 0, 0x40, 0x41, 0, 0] 2 0x40 7 (6, 2, [0x41, 0]) = Inr (6, 2, [0x41, 0])
   \<and> flag_loop [0x10, 2, 0, 0, 0x40, 0x41, 0, 0] 2 (6, 1, [0x41, 0]) = Some (Inr (8, 2, [0x41, 0]))
   \<and> decompress_lz77 [0x10, 2, 0, 0, 0x40, 0x41, 0, 0] 0 = Some (Inr [0x41, 0x41])
   \<and> header_size [0x10, 2, 0, 0, 0x40, 0x41, 0, 0] 0 = Inr (length [0x41, 0x41 :: byte])"
proof -
  have h1: "copy_loop 3 2 1 1 [0x41, 0] = Inr (2, [0x41, 0x41])"
    by code_simp
  have h2: "unit_loop [0x10, 2, 0, 0, 0x40, 0x41, 0, 0] 2 0x40 7 (6, 1, [0x41, 0]) = Inr (8, 2, [0x41, 0x41])"
    by code_simp
  have h3: "flag_loop [0x10, 2, 0, 0, 0x40, 0x41, 0, 0] 2 (6, 1, [0x41, 0]) = Some (Inr (8, 2, [0x41, 0]))"
    by code_simp
  have h4: "decompress_lz77 [0x10, 2, 0, 0, 0x40, 0x41, 0, 0] 0 = Some (Inr [0x41, 0x41])"
    by code_simp
  show ?thesis
    using h1 h2 h3 h4
      cursor_within_declared_size [where d = 1 and sz = 2 and n = 3 and off = 1
        and out = "[0x41, 0]" and ?d1.0 = 2 and ?out1.0 = "[0x41, 0x41]"
        and data = "[0x10, 2, 0, 0, 0x40, 0x41, 0, 0]" and flags = "0x40" and k = 7 and s = 6
        and ?s2.0 = 8 and ?d2.0 = 2 and ?out2.0 = "[0x41, 0x41]"
        and ?s3.0 = 8 and ?d3.0 = 2 and ?out3.0 = "[0x41, 0]"
        and src_offset = 0 and res = "[0x41, 0x41]"]
    by simp
qed

text \<open>
  C9. When the header declares size 0 the call returns the empty buffer, and the source
  position ends at \<open>src_offset + 4\<close>: only the header was consumed, no flag byte read.
\<close>

theorem declared_size_zero:
  "header_size data src_offset = Inr 0 \<Longrightarrow>
     decompress_lz77 data src_offset = Some (Inr [])
     \<and> decompress_lz77_run data src_offset = Some (Inr (src_offset + 4, 0, []))"
  by (simp add: decompress_lz77_def decompress_lz77_run_def flag_loop_done)

theorem declared_size_zero_witness:
  "header_size [0x10, 0, 0, 0, 0xFF] 0 = Inr 0
   \<and> decompress_lz77 [0x10, 0, 0, 0, 0xFF] 0 = Some (Inr [])
   \<and> decompress_lz77_run [0x10, 0, 0, 0, 0xFF] 0 = Some (Inr (0 + 4, 0, []))"
proof -
  have h: "header_size [0x10, 0, 0, 0, 0xFF] 0 = Inr 0"
    by code_simp
  from declared_size_zero [OF h] h show ?thesis by simp
qed

text \<open>
  C10. The call always ends: the model's result is never \<open>None\<close>, for the whole function
  and for the flag-byte loop from any state. A round of the flag-byte loop entered below
  the declared size either raises or leaves the cursor strictly larger and still within
  the size.
\<close>

theorem decompress_lz77_terminates:
  "(\<exists>r. decompress_lz77 data src_offset = Some r)
   \<and> (\<exists>r. flag_loop data sz (s, d, out) = Some r)
   \<and> (d < sz \<and> unit_loop data sz flags 8 (s + 1, d, out) = Inr (s', d', out')
        \<longrightarrow> d < d' \<and> d' \<le> sz)"
proof (intro conjI impI)
  show "\<exists>r. decompress_lz77 data src_offset = Some r"
    using run_total [of data src_offset] by (auto simp: decompress_lz77_def)
next
  show "\<exists>r. flag_loop data sz (s, d, out) = Some r"
    using flag_loop_total [of data sz s d out] by blast
next
  assume a: "d < sz \<and> unit_loop data sz flags 8 (s + 1, d, out) = Inr (s', d', out')"
  then show "d < d'"
    using unit_loop_spec [of data sz flags 8 "s + 1" d out s' d' out'] by auto
  from a show "d' \<le> sz"
    using unit_loop_spec [of data sz flags 8 "s + 1" d out s' d' out'] by auto
qed

theorem decompress_lz77_terminates_witness:
  "(0::nat) < 5
   \<and> unit_loop [0x10, 5, 0, 0, 0x40, 0x41, 0, 0, 0x42] 5 0x40 8 (4 + 1, 0, [0, 0, 0, 0, 0])
       = Inr (9, 5, [0x41, 0x41, 0x41, 0x41, 0x42])
   \<and> (0::nat) < 5 \<and> (5::nat) \<le> 5
   \<and> (\<exists>r. decompress_lz77 [0x10, 5, 0, 0, 0x40, 0x41, 0, 0, 0x42] 0 = Some r)"
proof -
  have h: "unit_loop [0x10, 5, 0, 0, 0x40, 0x41, 0, 0, 0x42] 5 0x40 8 (4 + 1, 0, [0, 0, 0, 0, 0])
       = Inr (9, 5, [0x41, 0x41, 0x41, 0x41, 0x42])"
    by code_simp
  show ?thesis
    using h decompress_lz77_terminates [where data = "[0x10, 5, 0, 0, 0x40, 0x41, 0, 0, 0x42]"
        and src_offset = 0 and sz = 5 and s = 4 and d = 0 and out = "[0, 0, 0, 0, 0]"
        and flags = "0x40" and s' = 9 and d' = 5 and out' = "[0x41, 0x41, 0x41, 0x41, 0x42]"]
    by simp
qed

end
